theory Spec2Isabelle
  imports Main "HOL-Library.Product_Lexorder" "HOL-Library.Multiset"
begin

section \<open>Grid geometry\<close>

text \<open>
  The enum \<open>Direction\<close> of the scheduler; \<open>direction_value\<close> is the angle each member
  carries (\<open>RIGHT = 0\<close>, \<open>UP = 90\<close>, \<open>LEFT = 180\<close>, \<open>DOWN = 270\<close>).
\<close>

datatype Direction = RIGHT | UP | LEFT | DOWN

fun direction_value :: "Direction \<Rightarrow> int" where
  "direction_value RIGHT = 0"
| "direction_value UP = 90"
| "direction_value LEFT = 180"
| "direction_value DOWN = 270"

text \<open>
  Class \<open>PointEx\<close>: a pair of (unbounded) integers compared by value. The selectors
  \<open>px\<close> and \<open>py\<close> are the attributes \<open>x\<close> and \<open>y\<close>.
\<close>

datatype PointEx = PointEx (px: int) (py: int)

definition left_neighbour :: "PointEx \<Rightarrow> PointEx" where
  "left_neighbour p = PointEx (px p - 1) (py p)"

definition right_neighbour :: "PointEx \<Rightarrow> PointEx" where
  "right_neighbour p = PointEx (px p + 1) (py p)"

definition up_neighbour :: "PointEx \<Rightarrow> PointEx" where
  "up_neighbour p = PointEx (px p) (py p - 1)"

definition down_neighbour :: "PointEx \<Rightarrow> PointEx" where
  "down_neighbour p = PointEx (px p) (py p + 1)"

definition neighbours :: "PointEx \<Rightarrow> PointEx list" where
  "neighbours p = [left_neighbour p, right_neighbour p, up_neighbour p, down_neighbour p]"

fun get_neighbour :: "PointEx \<Rightarrow> Direction \<Rightarrow> PointEx" where
  "get_neighbour p RIGHT = right_neighbour p"
| "get_neighbour p UP = up_neighbour p"
| "get_neighbour p LEFT = left_neighbour p"
| "get_neighbour p DOWN = down_neighbour p"

definition is_neighbour :: "PointEx \<Rightarrow> PointEx \<Rightarrow> bool" where
  "is_neighbour self point \<longleftrightarrow>
     (px self = px point \<and> (py self = py point + 1 \<or> py self = py point - 1)) \<or>
     (py self = py point \<and> (px self = px point + 1 \<or> px self = px point - 1))"

text \<open>
  The exceptions the program can raise. \<open>DeadlockExceeded\<close> is the scheduler's
  "Failed to complete all tasks" exception, \<open>PitchFailure\<close> the exception of
  \<open>get_pitch_to_neighbour\<close>; the others are the built-in exceptions of list, dictionary
  and attribute access.
\<close>

datatype error =
    DeadlockExceeded
  | PitchFailure PointEx PointEx
  | IndexError
  | ValueError
  | KeyError
  | AttributeError
  | TypeError

definition get_pitch_to_neighbour :: "PointEx \<Rightarrow> PointEx \<Rightarrow> error + Direction" where
  "get_pitch_to_neighbour self neighbour_point =
     (let dx = px neighbour_point - px self;
          dy = py neighbour_point - py self
      in if dy = 0 then
           (if dx > 0 then Inr RIGHT
            else if dx < 0 then Inr LEFT
            else Inl (PitchFailure self neighbour_point))
         else if dx = 0 then
           (if dy > 0 then Inr UP
            else if dy < 0 then Inr DOWN
            else Inl (PitchFailure self neighbour_point))
         else Inl (PitchFailure self neighbour_point))"

text \<open>Class \<open>PathTimePoint\<close>: a position and the time needed to reach it.\<close>

datatype PathTimePoint = PathTimePoint (ptp_position: PointEx) (time_cost: int)

section \<open>Priority queue\<close>

text \<open>
  \<open>SimplePriorityQueue\<close> keeps entries \<open>(priority, index, item)\<close> in a binary heap and
  pops the least entry. The heap is modelled by its content in ascending order of
  \<open>(priority, index)\<close>: \<open>heappush\<close> inserts an entry behind every entry that is not
  greater, and the least entry is the head. The insertion index is different for every
  entry of a queue, so the comparison of two entries never reaches the item.
\<close>

record 'a SimplePriorityQueue =
  pq_heap :: "(int \<times> nat \<times> 'a) list"
  pq_index :: nat

definition empty_queue :: "'a SimplePriorityQueue" where
  "empty_queue = \<lparr>pq_heap = [], pq_index = 0\<rparr>"

definition entry_less :: "int \<times> nat \<times> 'a \<Rightarrow> int \<times> nat \<times> 'a \<Rightarrow> bool" where
  "entry_less a b \<longleftrightarrow>
     fst a < fst b \<or> (fst a = fst b \<and> fst (snd a) < fst (snd b))"

fun heappush :: "int \<times> nat \<times> 'a \<Rightarrow> (int \<times> nat \<times> 'a) list \<Rightarrow> (int \<times> nat \<times> 'a) list" where
  "heappush e [] = [e]"
| "heappush e (h # t) = (if entry_less e h then e # h # t else h # heappush e t)"

definition enqueue :: "'a SimplePriorityQueue \<Rightarrow> 'a \<Rightarrow> int \<Rightarrow> 'a SimplePriorityQueue" where
  "enqueue q item priority =
     \<lparr>pq_heap = heappush (priority, pq_index q, item) (pq_heap q),
      pq_index = pq_index q + 1\<rparr>"

definition dequeue :: "'a SimplePriorityQueue \<Rightarrow> error + ('a \<times> 'a SimplePriorityQueue)" where
  "dequeue q =
     (case pq_heap q of
        [] \<Rightarrow> Inl IndexError
      | e # rest \<Rightarrow> Inr (snd (snd e), q\<lparr>pq_heap := rest\<rparr>))"

definition count :: "'a SimplePriorityQueue \<Rightarrow> nat" where
  "count q = length (pq_heap q)"

section \<open>Path planning\<close>

definition MOVE_COST :: int where
  "MOVE_COST = 1"

definition TURN_COST :: int where
  "TURN_COST = 1"

definition GRID_SIZE :: "int \<times> int" where
  "GRID_SIZE = (21, 21)"

definition manhattan :: "PointEx \<Rightarrow> PointEx \<Rightarrow> int" where
  "manhattan p1 p2 = \<bar>px p1 - px p2\<bar> + \<bar>py p1 - py p2\<bar>"

text \<open>
  The inner generator \<open>get_neighbors\<close> of \<open>a_star_with_orientation\<close>. Its caller
  consumes it completely while neither the obstacles nor the visited set change, so the
  generator is the list of what it yields.
\<close>

definition directions :: "(int \<times> int \<times> Direction) list" where
  "directions = [(1, 0, RIGHT), (-1, 0, LEFT), (0, 1, UP), (0, -1, DOWN)]"

definition get_neighbors ::
  "int \<times> int \<Rightarrow> PointEx set \<Rightarrow> PointEx \<Rightarrow> Direction \<Rightarrow> (PointEx \<times> Direction \<times> int) list" where
  "get_neighbors gsize obstacles pos current_orientation =
     List.map_filter
       (\<lambda>(dx, dy, direction).
          let nx = px pos + dx; ny = py pos + dy
          in if 1 \<le> nx \<and> nx \<le> fst gsize \<and> 1 \<le> ny \<and> ny \<le> snd gsize \<and>
                PointEx nx ny \<notin> obstacles
             then (let turn_cost = (if direction \<noteq> current_orientation then TURN_COST else 0);
                       total_cost = MOVE_COST + turn_cost
                   in Some (PointEx nx ny, direction, total_cost))
             else None)
       directions"

text \<open>
  A frontier item is the tuple \<open>(priority, cost, position, orientation, path)\<close>.
\<close>

type_synonym search_node = "int \<times> int \<times> PointEx \<times> Direction \<times> PointEx list"

text \<open>The \<open>for\<close> loop that expands the neighbours of the popped node.\<close>

fun expand_neighbours ::
  "PointEx \<Rightarrow> (PointEx \<times> Direction) set \<Rightarrow> int \<Rightarrow> PointEx list \<Rightarrow>
   (PointEx \<times> Direction \<times> int) list \<Rightarrow> search_node SimplePriorityQueue \<Rightarrow>
   search_node SimplePriorityQueue" where
  "expand_neighbours goal visited cost path [] frontier = frontier"
| "expand_neighbours goal visited cost path ((next_pos, next_orientation, move_cost) # rest) frontier =
     (if (next_pos, next_orientation) \<notin> visited then
        (let new_cost = cost + move_cost;
             new_path = path @ [next_pos];
             priority = new_cost + manhattan next_pos goal
         in expand_neighbours goal visited cost path rest
              (enqueue frontier (priority, new_cost, next_pos, next_orientation, new_path) priority))
      else expand_neighbours goal visited cost path rest frontier)"

text \<open>
  The states \<open>(position, orientation)\<close> the search can still visit are those of the grid and
  those in the frontier. Every expansion puts one of them into the visited set and every
  other iteration shortens the frontier: this is why the \<open>while\<close> loop ends.
\<close>

definition node_state :: "int \<times> nat \<times> search_node \<Rightarrow> PointEx \<times> Direction" where
  "node_state e = (fst (snd (snd (snd (snd e)))), fst (snd (snd (snd (snd (snd e))))))"

definition frontier_states :: "search_node SimplePriorityQueue \<Rightarrow> (PointEx \<times> Direction) set" where
  "frontier_states frontier = node_state ` set (pq_heap frontier)"

definition grid_states :: "int \<times> int \<Rightarrow> (PointEx \<times> Direction) set" where
  "grid_states gsize =
     {(p, d). 1 \<le> px p \<and> px p \<le> fst gsize \<and> 1 \<le> py p \<and> py p \<le> snd gsize}"

definition search_measure ::
  "int \<times> int \<Rightarrow> search_node SimplePriorityQueue \<Rightarrow> (PointEx \<times> Direction) set \<Rightarrow> nat \<times> nat" where
  "search_measure gsize frontier visited =
     (card ((grid_states gsize \<union> frontier_states frontier) - visited), count frontier)"

lemma Direction_UNIV: "(UNIV :: Direction set) = {RIGHT, UP, LEFT, DOWN}"
  by (auto intro: Direction.exhaust)

lemma finite_grid_states: "finite (grid_states gsize)"
proof -
  have "grid_states gsize \<subseteq>
          (\<lambda>((a, b), d). (PointEx a b, d)) ` (({1..fst gsize} \<times> {1..snd gsize}) \<times> (UNIV :: Direction set))"
  proof
    fix s assume "s \<in> grid_states gsize"
    then obtain p d where s: "s = (p, d)" and b: "1 \<le> px p" "px p \<le> fst gsize" "1 \<le> py p" "py p \<le> snd gsize"
      by (auto simp: grid_states_def)
    have "((px p, py p), d) \<in> ({1..fst gsize} \<times> {1..snd gsize}) \<times> (UNIV :: Direction set)"
      using b by simp
    moreover have "(\<lambda>((a, b), d). (PointEx a b, d)) ((px p, py p), d) = s"
      using s by simp
    ultimately show "s \<in> (\<lambda>((a, b), d). (PointEx a b, d)) ` (({1..fst gsize} \<times> {1..snd gsize}) \<times> (UNIV :: Direction set))"
      by (metis (no_types, lifting) image_eqI)
  qed
  moreover have "finite (({1..fst gsize} \<times> {1..snd gsize}) \<times> (UNIV :: Direction set))"
    by (simp add: Direction_UNIV)
  ultimately show ?thesis
    by (meson finite_imageI finite_subset)
qed

lemma finite_frontier_states: "finite (frontier_states frontier)"
  by (simp add: frontier_states_def)

lemma set_heappush: "set (heappush e h) = insert e (set h)"
  by (induction h) auto

lemma length_heappush: "length (heappush e h) = Suc (length h)"
  by (induction h) auto

lemma frontier_states_enqueue:
  "frontier_states (enqueue frontier (priority, cost, pos, ori, path) p) =
     insert (pos, ori) (frontier_states frontier)"
  by (simp add: frontier_states_def enqueue_def set_heappush node_state_def)

lemma set_map_filter_conv:
  "set (List.map_filter f xs) = {y. \<exists>x. x \<in> set xs \<and> f x = Some y}"
  by (induction xs) (auto split: option.splits)

lemma get_neighbors_mem:
  "(p, d, c) \<in> set (get_neighbors gsize obstacles pos ori) \<longleftrightarrow>
     (\<exists>dx dy. (dx, dy, d) \<in> set directions \<and> p = PointEx (px pos + dx) (py pos + dy) \<and>
        1 \<le> px p \<and> px p \<le> fst gsize \<and> 1 \<le> py p \<and> py p \<le> snd gsize \<and>
        p \<notin> obstacles \<and> c = MOVE_COST + (if d \<noteq> ori then TURN_COST else 0))"
  unfolding get_neighbors_def set_map_filter_conv
  by (fastforce simp: Let_def split: if_splits)

lemma get_neighbors_in_grid:
  "(p, d, c) \<in> set (get_neighbors gsize obstacles pos ori) \<Longrightarrow> (p, d) \<in> grid_states gsize"
  by (auto simp: get_neighbors_mem grid_states_def)

lemma frontier_states_expand:
  "frontier_states (expand_neighbours goal visited cost path ns frontier)
     \<subseteq> frontier_states frontier \<union> {(p, d). \<exists>c. (p, d, c) \<in> set ns}"
proof (induction ns arbitrary: frontier)
  case Nil
  then show ?case by simp
next
  case (Cons n ns)
  obtain p d c where n: "n = (p, d, c)" by (cases n) auto
  show ?case
    using Cons.IH [of frontier]
          Cons.IH [of "enqueue frontier (cost + c + manhattan p goal, cost + c, p, d, path @ [p])
                         (cost + c + manhattan p goal)"]
    by (auto simp: n Let_def frontier_states_enqueue)
qed

lemma dequeue_Inr:
  "dequeue frontier = Inr ((priority, cost, pos, ori, path), frontier') \<Longrightarrow>
     (pos, ori) \<in> frontier_states frontier \<and>
     frontier_states frontier' \<subseteq> frontier_states frontier \<and>
     count frontier = Suc (count frontier')"
  by (auto simp: dequeue_def frontier_states_def count_def node_state_def split: list.splits)

lemma search_measure_skip:
  assumes "dequeue frontier = Inr ((priority, cost, pos, ori, path), frontier')"
  shows "(search_measure gsize frontier' visited, search_measure gsize frontier visited)
           \<in> less_than <*lex*> less_than"
proof -
  from dequeue_Inr [OF assms]
  have sub: "frontier_states frontier' \<subseteq> frontier_states frontier"
    and cnt: "count frontier = Suc (count frontier')" by auto
  have "card ((grid_states gsize \<union> frontier_states frontier') - visited)
          \<le> card ((grid_states gsize \<union> frontier_states frontier) - visited)"
    using sub by (intro card_mono) (auto simp: finite_grid_states finite_frontier_states)
  then show ?thesis
    using cnt by (auto simp: search_measure_def)
qed

lemma search_measure_expand:
  assumes "dequeue frontier = Inr ((priority, cost, pos, ori, path), frontier')"
    and "(pos, ori) \<notin> visited"
  shows "(search_measure gsize
            (expand_neighbours goal (insert (pos, ori) visited) cost path
               (get_neighbors gsize obstacles pos ori) frontier')
            (insert (pos, ori) visited),
          search_measure gsize frontier visited)
           \<in> less_than <*lex*> less_than"
proof -
  let ?fr = "expand_neighbours goal (insert (pos, ori) visited) cost path
               (get_neighbors gsize obstacles pos ori) frontier'"
  from dequeue_Inr [OF assms(1)]
  have mem: "(pos, ori) \<in> frontier_states frontier"
    and sub: "frontier_states frontier' \<subseteq> frontier_states frontier" by auto
  have "frontier_states ?fr \<subseteq> frontier_states frontier' \<union> grid_states gsize"
    using frontier_states_expand [of goal "insert (pos, ori) visited" cost path
            "get_neighbors gsize obstacles pos ori" frontier']
    by (auto dest: get_neighbors_in_grid)
  then have "(grid_states gsize \<union> frontier_states ?fr) - insert (pos, ori) visited
               \<subset> (grid_states gsize \<union> frontier_states frontier) - visited"
    using sub mem assms(2) by auto
  then have "card ((grid_states gsize \<union> frontier_states ?fr) - insert (pos, ori) visited)
               < card ((grid_states gsize \<union> frontier_states frontier) - visited)"
    by (intro psubset_card_mono) (auto simp: finite_grid_states finite_frontier_states)
  then show ?thesis
    by (simp add: search_measure_def)
qed

text \<open>
  The \<open>while\<close> loop of \<open>a_star_with_orientation\<close>. It returns the tuple popped at the
  goal (\<open>None\<close> when the frontier ran empty), so that the accumulated cost of the returned
  path can be named; \<open>a_star_with_orientation\<close> returns the path of that tuple.
\<close>

function a_star_loop ::
  "int \<times> int \<Rightarrow> PointEx \<Rightarrow> PointEx set \<Rightarrow> search_node SimplePriorityQueue \<Rightarrow>
   (PointEx \<times> Direction) set \<Rightarrow> error + search_node option" where
  "a_star_loop gsize goal obstacles frontier visited =
     (if count frontier > 0 then
        (case dequeue frontier of
           Inl e \<Rightarrow> Inl e
         | Inr ((priority, cost, current_pos, current_orientation, path), frontier') \<Rightarrow>
             if current_pos = goal then
               Inr (Some (priority, cost, current_pos, current_orientation, path))
             else if (current_pos, current_orientation) \<in> visited then
               a_star_loop gsize goal obstacles frontier' visited
             else
               a_star_loop gsize goal obstacles
                 (expand_neighbours goal (insert (current_pos, current_orientation) visited) cost path
                    (get_neighbors gsize obstacles current_pos current_orientation) frontier')
                 (insert (current_pos, current_orientation) visited))
      else Inr None)"
  by pat_completeness auto
termination
proof (relation "inv_image (less_than <*lex*> less_than)
                   (\<lambda>(gsize, goal, obstacles, frontier, visited). search_measure gsize frontier visited)")
  show "wf (inv_image (less_than <*lex*> less_than)
                   (\<lambda>(gsize, goal, obstacles, frontier, visited). search_measure gsize frontier visited))"
    by (intro wf_inv_image wf_lex_prod wf_less_than)
next
  fix gsize :: "int \<times> int" and goal :: PointEx and obstacles :: "PointEx set"
    and frontier :: "search_node SimplePriorityQueue" and visited :: "(PointEx \<times> Direction) set"
    and b x y xa ya xb yb xc yaa xd yab
  assume "dequeue frontier = Inr b" "(x, y) = b" "(xa, ya) = x" "(xb, yb) = ya" "(xc, yaa) = yb"
    "(xd, yab) = yaa"
  then have d: "dequeue frontier = Inr ((xa, xb, xc, xd, yab), y)" by simp
  show "((gsize, goal, obstacles, y, visited), gsize, goal, obstacles, frontier, visited)
          \<in> inv_image (less_than <*lex*> less_than)
              (\<lambda>(gsize, goal, obstacles, frontier, visited). search_measure gsize frontier visited)"
    using search_measure_skip [OF d, of gsize visited] by (simp only: in_inv_image prod.case)
  assume "(xc, xd) \<notin> visited"
  from search_measure_expand [OF d this, of gsize goal obstacles]
  show "((gsize, goal, obstacles,
             expand_neighbours goal (insert (xc, xd) visited) xb yab
              (get_neighbors gsize obstacles xc xd) y,
             insert (xc, xd) visited),
            gsize, goal, obstacles, frontier, visited)
          \<in> inv_image (less_than <*lex*> less_than)
              (\<lambda>(gsize, goal, obstacles, frontier, visited). search_measure gsize frontier visited)"
    by (simp only: in_inv_image prod.case)
qed

text \<open>
  \<open>a_star_with_orientation\<close>: \<open>grid_bounds\<close> is \<open>grid_size or GRID_SIZE\<close>, \<open>initial_frontier\<close>
  the queue holding the start node, and \<open>a_star_search\<close> the search from it with an empty
  visited set.
\<close>

definition grid_bounds :: "(int \<times> int) option \<Rightarrow> int \<times> int" where
  "grid_bounds grid_size = (case grid_size of None \<Rightarrow> GRID_SIZE | Some g \<Rightarrow> g)"

definition initial_frontier :: "PointEx \<Rightarrow> PointEx \<Rightarrow> Direction \<Rightarrow> search_node SimplePriorityQueue" where
  "initial_frontier start goal orientation =
     enqueue empty_queue (manhattan start goal, 0, start, orientation, [start]) (manhattan start goal)"

definition a_star_search ::
  "PointEx \<Rightarrow> PointEx \<Rightarrow> Direction \<Rightarrow> PointEx set \<Rightarrow> (int \<times> int) option \<Rightarrow>
   error + search_node option" where
  "a_star_search start goal orientation obstacles grid_size =
     a_star_loop (grid_bounds grid_size) goal obstacles (initial_frontier start goal orientation) {}"

definition a_star_with_orientation ::
  "PointEx \<Rightarrow> PointEx \<Rightarrow> Direction \<Rightarrow> PointEx set \<Rightarrow> (int \<times> int) option \<Rightarrow> error + PointEx list" where
  "a_star_with_orientation start goal orientation obstacles grid_size =
     (case a_star_search start goal orientation obstacles grid_size of
        Inl e \<Rightarrow> Inl e
      | Inr None \<Rightarrow> Inr []
      | Inr (Some (priority, cost, current_pos, current_orientation, path)) \<Rightarrow> Inr path)"

declare a_star_loop.simps [simp del]

text \<open>
  \<open>calculate_path_timing\<close>: the \<open>for\<close> loop over \<open>range(1, len(path))\<close> walks the path with
  the point it comes from, the running time and the running pitch.
\<close>

fun timing_loop :: "PointEx \<Rightarrow> PointEx list \<Rightarrow> int \<Rightarrow> Direction \<Rightarrow> error + PathTimePoint list" where
  "timing_loop from_point [] current_time current_pitch = Inr []"
| "timing_loop from_point (to_point # rest) current_time current_pitch =
     (case get_pitch_to_neighbour from_point to_point of
        Inl e \<Rightarrow> Inl e
      | Inr new_pitch \<Rightarrow>
          (let turned_time = (if new_pitch \<noteq> current_pitch then current_time + TURN_COST else current_time);
               turned_pitch = (if new_pitch \<noteq> current_pitch then new_pitch else current_pitch);
               moved_time = turned_time + MOVE_COST
           in case timing_loop to_point rest moved_time turned_pitch of
                Inl e \<Rightarrow> Inl e
              | Inr result \<Rightarrow> Inr (PathTimePoint to_point moved_time # result)))"

definition calculate_path_timing :: "PointEx list \<Rightarrow> Direction \<Rightarrow> error + PathTimePoint list" where
  "calculate_path_timing path initial_pitch =
     (case path of
        [] \<Rightarrow> Inr []
      | first_point # rest \<Rightarrow>
          (case timing_loop first_point rest 0 initial_pitch of
             Inl e \<Rightarrow> Inl e
           | Inr result \<Rightarrow> Inr (PathTimePoint first_point 0 # result)))"

subsection \<open>Predicates on paths and search nodes\<close>

text \<open>
  \<open>steps_ok gsize obstacles p qs\<close>: walking from \<open>p\<close> through \<open>qs\<close>, every step goes to a
  4-adjacent cell that lies inside the grid and outside the obstacle set.
  \<open>walk p qs t d\<close> is the time and the pitch after that walk, started at time \<open>t\<close>
  with pitch \<open>d\<close>, as the planner accumulates them: \<open>MOVE_COST\<close> a step and \<open>TURN_COST\<close>
  for every change of direction.
\<close>

fun steps_ok :: "int \<times> int \<Rightarrow> PointEx set \<Rightarrow> PointEx \<Rightarrow> PointEx list \<Rightarrow> bool" where
  "steps_ok gsize obstacles p [] = True"
| "steps_ok gsize obstacles p (q # qs) =
     (is_neighbour p q \<and> 1 \<le> px q \<and> px q \<le> fst gsize \<and> 1 \<le> py q \<and> py q \<le> snd gsize \<and>
      q \<notin> obstacles \<and> steps_ok gsize obstacles q qs)"

fun walk :: "PointEx \<Rightarrow> PointEx list \<Rightarrow> int \<Rightarrow> Direction \<Rightarrow> int \<times> Direction" where
  "walk p [] t d = (t, d)"
| "walk p (q # qs) t d =
     (case get_pitch_to_neighbour p q of
        Inl e \<Rightarrow> (t, d)
      | Inr nd \<Rightarrow> walk q qs (t + (if nd \<noteq> d then TURN_COST else 0) + MOVE_COST) nd)"

definition node_ok ::
  "int \<times> int \<Rightarrow> PointEx set \<Rightarrow> PointEx \<Rightarrow> Direction \<Rightarrow> search_node \<Rightarrow> bool" where
  "node_ok gsize obstacles start orientation node =
     (case node of (priority, cost, pos, ori, path) \<Rightarrow>
        path \<noteq> [] \<and> hd path = start \<and> last path = pos \<and>
        steps_ok gsize obstacles start (tl path) \<and>
        walk start (tl path) 0 orientation = (cost, ori))"

definition frontier_ok ::
  "int \<times> int \<Rightarrow> PointEx set \<Rightarrow> PointEx \<Rightarrow> Direction \<Rightarrow> search_node SimplePriorityQueue \<Rightarrow> bool" where
  "frontier_ok gsize obstacles start orientation frontier =
     list_all (\<lambda>e. node_ok gsize obstacles start orientation (snd (snd e))) (pq_heap frontier)"

section \<open>Domain model\<close>

datatype TaskPriority = NORMAL | HIGH

fun priority_value :: "TaskPriority \<Rightarrow> int" where
  "priority_value NORMAL = 0"
| "priority_value HIGH = 1"

datatype MapElementType = START_POINT | END_POINT | AGV

text \<open>Class \<open>TaskRecord\<close>: a task as the task file gives it.\<close>

record TaskRecord =
  task_id :: string
  start_point :: string
  end_point :: string
  priority :: TaskPriority
  remaining_time :: "int option"

text \<open>
  Class \<open>MapElement\<close>; the fields are prefixed because \<open>name\<close> and \<open>pitch\<close> are also
  attributes of an AGV.
\<close>

record MapElement =
  element_type :: MapElementType
  element_name :: string
  element_x :: int
  element_y :: int
  element_pitch :: "Direction option"

record RectEx =
  rect_left :: int
  rect_top :: int
  rect_right :: int
  rect_bottom :: int

text \<open>
  Class \<open>TaskEx\<close> extends \<open>TaskRecord\<close>. Objects refer to each other by their place in the
  context's lists: \<open>agv\<close> is the index of the AGV that loaded the task in \<open>context.agvs\<close>,
  and an AGV's \<open>loaded_task\<close> is the index of its task in \<open>context.tasks\<close>. Neither class
  defines equality, so two objects are equal exactly when they are the same object, that
  is, when their indices are equal.
\<close>

record TaskEx = TaskRecord +
  start_position :: PointEx
  end_position :: PointEx
  pickup_position :: PointEx
  agv :: "nat option"
  start_timestamp :: int
  complete_timestamp :: int
  is_completed :: bool

definition TaskEx_init :: "TaskRecord \<Rightarrow> PointEx \<Rightarrow> PointEx \<Rightarrow> TaskEx" where
  "TaskEx_init task_record start_pos end_pos =
     \<lparr>task_id = task_id task_record,
      start_point = start_point task_record,
      end_point = end_point task_record,
      priority = priority task_record,
      remaining_time = remaining_time task_record,
      start_position = start_pos,
      end_position = end_pos,
      pickup_position = (if px start_pos > 10 then left_neighbour start_pos
                         else right_neighbour start_pos),
      agv = None,
      start_timestamp = 0,
      complete_timestamp = 0,
      is_completed = False\<rparr>"

text \<open>
  The properties \<open>is_pending\<close> and \<open>is_running\<close> and the methods \<open>load_by\<close> and \<open>unload\<close> of
  \<open>TaskEx\<close>; the latter is \<open>task_unload\<close> here, \<open>unload\<close> being the method of the AGV.
\<close>

definition is_pending :: "TaskEx \<Rightarrow> bool" where
  "is_pending task \<longleftrightarrow> agv task = None"

definition is_running :: "TaskEx \<Rightarrow> bool" where
  "is_running task \<longleftrightarrow> \<not> is_pending task \<and> \<not> is_completed task"

definition load_by :: "TaskEx \<Rightarrow> nat \<Rightarrow> int \<Rightarrow> TaskEx" where
  "load_by task agv_index timestamp_now = task\<lparr>agv := Some agv_index, start_timestamp := timestamp_now\<rparr>"

definition task_unload :: "TaskEx \<Rightarrow> int \<Rightarrow> TaskEx" where
  "task_unload task timestamp_now = task\<lparr>complete_timestamp := timestamp_now, is_completed := True\<rparr>"

text \<open>Class \<open>Agv\<close>.\<close>

record Agv =
  name :: string
  position :: PointEx
  pitch :: Direction
  is_loaded :: bool
  loaded_task :: "nat option"
  path_time_points :: "PathTimePoint list"

text \<open>
  The constructor and the methods of \<open>Agv\<close> that touch no task. \<open>should_turn\<close>, \<open>should_move\<close>
  and \<open>turn\<close> raise when \<open>get_pitch_to_neighbour\<close> does.
\<close>

definition Agv_init :: "string \<Rightarrow> PointEx \<Rightarrow> Direction \<Rightarrow> Agv" where
  "Agv_init agv_name agv_position agv_pitch =
     \<lparr>name = agv_name, position = agv_position, pitch = agv_pitch, is_loaded = False,
      loaded_task = None, path_time_points = []\<rparr>"

definition should_turn :: "Agv \<Rightarrow> error + bool" where
  "should_turn a =
     (if length (path_time_points a) > 1 then
        (case get_pitch_to_neighbour (position a) (ptp_position (path_time_points a ! 1)) of
           Inl e \<Rightarrow> Inl e
         | Inr d \<Rightarrow> Inr (d \<noteq> pitch a))
      else Inr False)"

text \<open>
  \<open>turn\<close> with a direction sets the pitch; without one it turns to the next point of the
  path and takes one unit off the time cost of every path point but the first.
\<close>

definition turn :: "Agv \<Rightarrow> Direction option \<Rightarrow> error + Agv" where
  "turn a specified_pitch =
     (case specified_pitch of
        Some d \<Rightarrow> Inr (a\<lparr>pitch := d\<rparr>)
      | None \<Rightarrow>
          (if length (path_time_points a) > 1 then
             (case get_pitch_to_neighbour (position a) (ptp_position (path_time_points a ! 1)) of
                Inl e \<Rightarrow> Inl e
              | Inr d \<Rightarrow>
                  Inr (a\<lparr>pitch := d,
                         path_time_points :=
                           hd (path_time_points a) #
                           map (\<lambda>p. PathTimePoint (ptp_position p) (time_cost p - 1))
                               (tl (path_time_points a))\<rparr>))
           else Inr a))"

definition should_move :: "Agv \<Rightarrow> error + bool" where
  "should_move a =
     (if length (path_time_points a) > 1 then
        (case get_pitch_to_neighbour (position a) (ptp_position (path_time_points a ! 1)) of
           Inl e \<Rightarrow> Inl e
         | Inr d \<Rightarrow> Inr (d = pitch a))
      else Inr False)"

definition move :: "Agv \<Rightarrow> Agv" where
  "move a =
     (if length (path_time_points a) > 1 then
        a\<lparr>position := ptp_position (path_time_points a ! 1),
          path_time_points :=
            tl (map (\<lambda>p. PathTimePoint (ptp_position p) (time_cost p - 1)) (path_time_points a))\<rparr>
      else a)"

text \<open>
  A row of the trajectory log, as \<open>TrajectoryRecorderService.add\<close> builds it.
\<close>

record TrajectoryRecord =
  row_timestamp :: int
  row_name :: string
  row_X :: int
  row_Y :: int
  row_pitch :: int
  row_loaded :: string
  row_destination :: string
  row_Emergency :: string
  row_TaskId :: string

text \<open>
  Class \<open>AgvContext\<close>. The trajectory recorder shares the list of AGVs with the context, so
  it is modelled by the rows it has recorded.
\<close>

record AgvContext =
  map_elements :: "MapElement list"
  task_records :: "TaskRecord list"
  tasks :: "TaskEx list"
  agvs :: "Agv list"
  fixed_map_obstacles :: "PointEx list"
  map_bounds :: RectEx
  trajectory_records :: "TrajectoryRecord list"

definition trajectory_row :: "TaskEx list \<Rightarrow> int \<Rightarrow> Agv \<Rightarrow> TrajectoryRecord" where
  "trajectory_row ts timestamp_now a =
     \<lparr>row_timestamp = timestamp_now,
      row_name = name a,
      row_X = px (position a),
      row_Y = py (position a),
      row_pitch = direction_value (pitch a),
      row_loaded = (if is_loaded a then ''true'' else ''false''),
      row_destination = (case loaded_task a of None \<Rightarrow> '''' | Some j \<Rightarrow> end_point (ts ! j)),
      row_Emergency = (case loaded_task a of
                         None \<Rightarrow> ''false''
                       | Some j \<Rightarrow> if priority (ts ! j) = HIGH then ''true'' else ''false''),
      row_TaskId = (case loaded_task a of None \<Rightarrow> '''' | Some j \<Rightarrow> task_id (ts ! j))\<rparr>"

definition recorder_add :: "AgvContext \<Rightarrow> int \<Rightarrow> AgvContext" where
  "recorder_add ctx timestamp_now =
     ctx\<lparr>trajectory_records :=
           trajectory_records ctx @ map (trajectory_row (tasks ctx) timestamp_now) (agvs ctx)\<rparr>"

definition get_bounds :: "MapElement list \<Rightarrow> RectEx" where
  "get_bounds elements =
     (case elements of
        [] \<Rightarrow> \<lparr>rect_left = 0, rect_top = 0, rect_right = 0, rect_bottom = 0\<rparr>
      | e # es \<Rightarrow>
          \<lparr>rect_left = fold min (map element_x es) (element_x e),
           rect_top = fold min (map element_y es) (element_y e),
           rect_right = fold max (map element_x es) (element_x e),
           rect_bottom = fold max (map element_y es) (element_y e)\<rparr>)"

fun get_position_by_name :: "MapElement list \<Rightarrow> MapElementType \<Rightarrow> string \<Rightarrow> error + PointEx" where
  "get_position_by_name [] wanted_type wanted_name = Inl ValueError"
| "get_position_by_name (element # rest) wanted_type wanted_name =
     (if element_type element = wanted_type \<and> element_name element = wanted_name
      then Inr (PointEx (element_x element) (element_y element))
      else get_position_by_name rest wanted_type wanted_name)"

text \<open>The three loops of \<open>AgvContext.__init__\<close>.\<close>

fun build_tasks :: "MapElement list \<Rightarrow> TaskRecord list \<Rightarrow> error + TaskEx list" where
  "build_tasks elements [] = Inr []"
| "build_tasks elements (task # rest) =
     (case get_position_by_name elements START_POINT (start_point task) of
        Inl e \<Rightarrow> Inl e
      | Inr start_pos \<Rightarrow>
          (case get_position_by_name elements END_POINT (end_point task) of
             Inl e \<Rightarrow> Inl e
           | Inr end_pos \<Rightarrow>
               (case build_tasks elements rest of
                  Inl e \<Rightarrow> Inl e
                | Inr built \<Rightarrow> Inr (TaskEx_init task start_pos end_pos # built))))"

text \<open>
  An AGV element without a pitch gives an AGV whose pitch is \<open>None\<close>; the constructor then
  fails with \<open>AttributeError\<close> when the recorder reads \<open>agv.pitch.value\<close> for the initial
  rows. The model raises it where the AGV is built, so that the pitch of an \<open>Agv\<close> is
  always a direction.
\<close>

fun build_agvs :: "MapElement list \<Rightarrow> error + Agv list" where
  "build_agvs [] = Inr []"
| "build_agvs (item # rest) =
     (if element_type item = AGV then
        (case element_pitch item of
           None \<Rightarrow> Inl AttributeError
         | Some d \<Rightarrow>
             (case build_agvs rest of
                Inl e \<Rightarrow> Inl e
              | Inr built \<Rightarrow>
                  Inr (Agv_init (element_name item) (PointEx (element_x item) (element_y item)) d # built)))
      else build_agvs rest)"

definition element_obstacles :: "MapElement list \<Rightarrow> PointEx list" where
  "element_obstacles elements =
     map (\<lambda>item. PointEx (element_x item) (element_y item))
         (filter (\<lambda>item. element_type item \<in> {START_POINT, END_POINT}) elements)"

definition border_obstacles :: "RectEx \<Rightarrow> PointEx list" where
  "border_obstacles b =
     concat (map (\<lambda>x. [PointEx x (rect_top b - 1), PointEx x (rect_bottom b + 1)])
                 [rect_left b - 1 .. rect_right b + 1]) @
     concat (map (\<lambda>y. [PointEx (rect_left b - 1) y, PointEx (rect_right b + 1) y])
                 [rect_top b - 1 .. rect_bottom b + 1])"

definition AgvContext_init :: "MapElement list \<Rightarrow> TaskRecord list \<Rightarrow> error + AgvContext" where
  "AgvContext_init elements records =
     (case build_tasks elements records of
        Inl e \<Rightarrow> Inl e
      | Inr built_tasks \<Rightarrow>
          (case build_agvs elements of
             Inl e \<Rightarrow> Inl e
           | Inr built_agvs \<Rightarrow>
               (if elements = [] then Inl ValueError
                else Inr (recorder_add
                       \<lparr>map_elements = elements,
                        task_records = records,
                        tasks = built_tasks,
                        agvs = built_agvs,
                        fixed_map_obstacles =
                          element_obstacles elements @ border_obstacles (get_bounds elements),
                        map_bounds = get_bounds elements,
                        trajectory_records = []\<rparr> 0))))"

definition get_completed_tasks :: "AgvContext \<Rightarrow> TaskEx list" where
  "get_completed_tasks ctx = filter is_completed (tasks ctx)"

definition all_tasks_completed :: "AgvContext \<Rightarrow> bool" where
  "all_tasks_completed ctx \<longleftrightarrow> list_all is_completed (tasks ctx)"

subsection \<open>Task ordering\<close>

text \<open>
  \<open>get_sorted_pending_tasks\<close> works on the indices of the pending tasks, in the order of
  \<open>context.tasks\<close>. \<open>group_tasks\<close> is the loop that fills the dictionary \<open>grouped_tasks\<close>:
  a start point that is not a key yet gets the empty list before the task is appended.
\<close>

definition pending_tasks :: "TaskEx list \<Rightarrow> nat list" where
  "pending_tasks ts = filter (\<lambda>i. is_pending (ts ! i)) [0..<length ts]"

fun group_tasks :: "TaskEx list \<Rightarrow> nat list \<Rightarrow> (string \<rightharpoonup> nat list) \<Rightarrow> (string \<rightharpoonup> nat list)" where
  "group_tasks ts [] grouped = grouped"
| "group_tasks ts (i # rest) grouped =
     (case grouped (start_point (ts ! i)) of
        None \<Rightarrow> group_tasks ts rest (grouped(start_point (ts ! i) \<mapsto> [] @ [i]))
      | Some g \<Rightarrow> group_tasks ts rest (grouped(start_point (ts ! i) \<mapsto> g @ [i])))"

text \<open>\<open>list.index\<close>: the place of the first occurrence, \<open>ValueError\<close> if there is none.\<close>

fun list_index :: "'a list \<Rightarrow> 'a \<Rightarrow> error + nat" where
  "list_index [] v = Inl ValueError"
| "list_index (u # rest) v =
     (if u = v then Inr 0
      else case list_index rest v of Inl e \<Rightarrow> Inl e | Inr k \<Rightarrow> Inr (Suc k))"

definition middleY :: int where
  "middleY = 10"

type_synonym task_sort_key = "int \<times> int \<times> int \<times> int \<times> int"

definition sort_key_of :: "TaskEx list \<Rightarrow> (string \<rightharpoonup> nat list) \<Rightarrow> nat \<Rightarrow> error + task_sort_key" where
  "sort_key_of ts grouped i =
     (case grouped (start_point (ts ! i)) of
        None \<Rightarrow> Inl KeyError
      | Some g \<Rightarrow>
          (case list_index g i of
             Inl e \<Rightarrow> Inl e
           | Inr sequence_index \<Rightarrow>
               (let priority_val = - priority_value (priority (ts ! i));
                    has_high_priority = list_ex (\<lambda>t. priority (ts ! t) = HIGH) g;
                    has_high_priority_value = (if has_high_priority then - 1 else 0);
                    queue_length = - int (length g);
                    y_position = (if py (pickup_position (ts ! i)) \<noteq> middleY then 0 else 1)
                in Inr (int sequence_index, priority_val, has_high_priority_value,
                        queue_length, y_position))))"

text \<open>
  \<open>list.sort(key=...)\<close> computes the key of every element, in order, and then sorts
  stably by the keys: \<open>keyed\<close> pairs each element with its key (the first exception of a
  key function ends the sort), and \<open>sort_key\<close> of the library is a stable sort.
\<close>

fun keyed :: "('a \<Rightarrow> error + 'k) \<Rightarrow> 'a list \<Rightarrow> error + ('k \<times> 'a) list" where
  "keyed f [] = Inr []"
| "keyed f (v # rest) =
     (case f v of
        Inl e \<Rightarrow> Inl e
      | Inr k \<Rightarrow> (case keyed f rest of Inl e \<Rightarrow> Inl e | Inr ks \<Rightarrow> Inr ((k, v) # ks)))"

definition get_sorted_pending_tasks :: "TaskEx list \<Rightarrow> error + nat list" where
  "get_sorted_pending_tasks ts =
     (let pending = pending_tasks ts;
          grouped_tasks = group_tasks ts pending Map.empty
      in case keyed (sort_key_of ts grouped_tasks) pending of
           Inl e \<Rightarrow> Inl e
         | Inr ks \<Rightarrow> Inr (map snd (sort_key fst ks)))"

text \<open>
  The compound key in the words of the specification: \<open>start_point_group ts i\<close> is the
  group of the pending tasks that share the start point of task \<open>i\<close>, in file order, and
  \<open>compound_key ts i\<close> is (index of the task within its group, negated priority value,
  -1 if the group contains a High task else 0, negated group length, 0 if the pickup
  position is off the row y = 10 else 1).
\<close>

definition start_point_group :: "TaskEx list \<Rightarrow> nat \<Rightarrow> nat list" where
  "start_point_group ts i =
     filter (\<lambda>j. start_point (ts ! j) = start_point (ts ! i)) (pending_tasks ts)"

definition compound_key :: "TaskEx list \<Rightarrow> nat \<Rightarrow> task_sort_key" where
  "compound_key ts i =
     (int (length (takeWhile (\<lambda>j. j \<noteq> i) (start_point_group ts i))),
      - priority_value (priority (ts ! i)),
      (if \<exists>j \<in> set (start_point_group ts i). priority (ts ! j) = HIGH then - 1 else 0),
      - int (length (start_point_group ts i)),
      (if py (pickup_position (ts ! i)) \<noteq> 10 then 0 else 1))"

section \<open>Scheduler\<close>

text \<open>
  Class \<open>SchedulerService\<close>. A function of the scheduler that can raise returns
  \<open>Inl (e, ctx)\<close> for the exception \<open>e\<close> raised with the context mutated into \<open>ctx\<close>, since
  an exception leaves every mutation made before it in place.
\<close>

record SchedulerService =
  sched_context :: AgvContext
  timestamp :: int

definition SchedulerService_init :: "AgvContext \<Rightarrow> SchedulerService" where
  "SchedulerService_init ctx = \<lparr>sched_context = ctx, timestamp = 0\<rparr>"

definition MAX_TIMESTAMP :: int where
  "MAX_TIMESTAMP = 400"

type_synonym 'a outcome = "(error \<times> AgvContext) + 'a"

text \<open>Writing a mutated AGV object back to its place in \<open>context.agvs\<close>.\<close>

definition set_agv :: "AgvContext \<Rightarrow> nat \<Rightarrow> Agv \<Rightarrow> AgvContext" where
  "set_agv ctx i a = ctx\<lparr>agvs := (agvs ctx)[i := a]\<rparr>"

text \<open>
  The methods of \<open>Agv\<close> that reach into a task: \<open>can_unload\<close>, \<open>unload\<close> and \<open>load\<close> of the
  AGV with index \<open>i\<close>.
\<close>

definition can_unload :: "AgvContext \<Rightarrow> nat \<Rightarrow> bool" where
  "can_unload ctx i =
     (let a = agvs ctx ! i
      in is_loaded a \<and>
         (case loaded_task a of
            None \<Rightarrow> False
          | Some j \<Rightarrow> is_neighbour (position a) (end_position (tasks ctx ! j))))"

definition unload :: "AgvContext \<Rightarrow> nat \<Rightarrow> int \<Rightarrow> AgvContext" where
  "unload ctx i timestamp_now =
     (let a = agvs ctx ! i
      in ctx\<lparr>agvs := (agvs ctx)[i := a\<lparr>path_time_points := [], is_loaded := False,
                                        loaded_task := None\<rparr>],
              tasks := (case loaded_task a of
                          None \<Rightarrow> tasks ctx
                        | Some j \<Rightarrow> (tasks ctx)[j := task_unload (tasks ctx ! j) timestamp_now])\<rparr>)"

definition load :: "AgvContext \<Rightarrow> nat \<Rightarrow> nat \<Rightarrow> int \<Rightarrow> AgvContext" where
  "load ctx i j timestamp_now =
     ctx\<lparr>agvs := (agvs ctx)[i := (agvs ctx ! i)\<lparr>is_loaded := True, loaded_task := Some j\<rparr>],
          tasks := (tasks ctx)[j := load_by (tasks ctx ! j) i timestamp_now]\<rparr>"

subsection \<open>Dynamic obstacles\<close>

text \<open>
  \<open>_get_obstacles\<close>. \<open>free_neighbours ctx k\<close> is the list \<open>neighbours\<close> computed for the other
  AGV \<open>k\<close>: its neighbour cells that are no fixed obstacle and hold no AGV adjacent to it.
\<close>

definition free_neighbours :: "AgvContext \<Rightarrow> nat \<Rightarrow> PointEx list" where
  "free_neighbours ctx k =
     fold (\<lambda>m nbs. filter (\<lambda>n. n \<noteq> position (agvs ctx ! m)) nbs)
          (filter (\<lambda>m. m \<noteq> k \<and> is_neighbour (position (agvs ctx ! m)) (position (agvs ctx ! k)))
                  [0..<length (agvs ctx)])
          (filter (\<lambda>n. n \<notin> set (fixed_map_obstacles ctx)) (neighbours (position (agvs ctx ! k))))"

fun cross_lock_obstacles :: "AgvContext \<Rightarrow> nat \<Rightarrow> nat list \<Rightarrow> PointEx list \<Rightarrow> PointEx list" where
  "cross_lock_obstacles ctx i [] obstacles = obstacles"
| "cross_lock_obstacles ctx i (k # rest) obstacles =
     (let nbs = free_neighbours ctx k
      in if length nbs = 1 \<and> nbs ! 0 \<in> set (neighbours (position (agvs ctx ! i)))
         then cross_lock_obstacles ctx i rest (obstacles @ [nbs ! 0])
         else cross_lock_obstacles ctx i rest obstacles)"

definition get_obstacles :: "AgvContext \<Rightarrow> nat \<Rightarrow> PointEx list" where
  "get_obstacles ctx i =
     (let agv_positions = map position (agvs ctx);
          obstacles = filter (\<lambda>pos. pos \<in> set agv_positions) (neighbours (position (agvs ctx ! i)))
      in cross_lock_obstacles ctx i (filter (\<lambda>k. k \<noteq> i) [0..<length (agvs ctx)]) obstacles)"

definition build_obstacles :: "AgvContext \<Rightarrow> PointEx list \<Rightarrow> PointEx list" where
  "build_obstacles ctx additional_obstacles = fixed_map_obstacles ctx @ additional_obstacles"

definition calculate_path_to_pickup_position ::
  "AgvContext \<Rightarrow> nat \<Rightarrow> nat \<Rightarrow> PointEx list \<Rightarrow> error + PointEx list" where
  "calculate_path_to_pickup_position ctx i j additional_obstacles =
     (let obstacles = build_obstacles ctx additional_obstacles;
          goal = pickup_position (tasks ctx ! j)
      in a_star_with_orientation (position (agvs ctx ! i)) goal (pitch (agvs ctx ! i))
           (set obstacles) None)"

text \<open>
  \<open>obstacles.remove(goal)\<close> removes the first occurrence of the goal from the list and
  raises \<open>ValueError\<close> when the list does not hold it.
\<close>

definition calculate_path_to_end_point ::
  "AgvContext \<Rightarrow> nat \<Rightarrow> nat \<Rightarrow> PointEx list \<Rightarrow> error + PointEx list" where
  "calculate_path_to_end_point ctx i j additional_obstacles =
     (let obstacles = build_obstacles ctx additional_obstacles;
          goal = end_position (tasks ctx ! j)
      in if goal \<in> set obstacles
         then a_star_with_orientation (position (agvs ctx ! i)) goal (pitch (agvs ctx ! i))
                (set (remove1 goal obstacles)) None
         else Inl ValueError)"

subsection \<open>Batched move\<close>

text \<open>
  An entry of \<open>moved_items\<close>: the AGV that moved, its position before the move, its task.
  \<open>cross_turn\<close> is the loop over \<open>moved_items\<close> of \<open>_batch_move_agvs\<close>; it returns the
  direction to turn to, \<open>None\<close> when no turn is needed (\<open>should_turn\<close> stays false).
\<close>

type_synonym moved_item = "nat \<times> PointEx \<times> nat"

fun cross_turn :: "AgvContext \<Rightarrow> Agv \<Rightarrow> TaskEx \<Rightarrow> moved_item list \<Rightarrow> Direction option" where
  "cross_turn ctx a current_agv_task [] = None"
| "cross_turn ctx a current_agv_task ((m, moved_pos, mt) # rest) =
     (let moved_agv = agvs ctx ! m;
          moved_task = tasks ctx ! mt
      in if pitch moved_agv = pitch a then
           (if pitch a \<in> {LEFT, RIGHT} \<and>
               px moved_pos = px (position a) \<and>
               py moved_pos = py (position a) + 1 \<and>
               py (end_position current_agv_task) > py (position a) \<and>
               py (end_position moved_task) \<le> py (position moved_agv)
            then Some UP
            else if pitch a \<in> {LEFT, RIGHT} \<and>
               px moved_pos = px (position a) \<and>
               py moved_pos = py (position a) - 1 \<and>
               py (end_position current_agv_task) < py (position a) \<and>
               py (end_position moved_task) \<ge> py (position moved_agv)
            then Some DOWN
            else if pitch a \<in> {UP, DOWN} \<and>
               py moved_pos = py (position a) \<and>
               px moved_pos = px (position a) - 1 \<and>
               px (end_position current_agv_task) < px (position a) \<and>
               px (end_position moved_task) \<ge> px (position moved_agv)
            then Some LEFT
            else if pitch a \<in> {UP, DOWN} \<and>
               py moved_pos = py (position a) \<and>
               px moved_pos = px (position a) + 1 \<and>
               px (end_position current_agv_task) > px (position a) \<and>
               px (end_position moved_task) \<le> px (position moved_agv)
            then Some RIGHT
            else cross_turn ctx a current_agv_task rest)
         else cross_turn ctx a current_agv_task rest)"

text \<open>
  The task of a candidate: \<open>agv.loaded_task if is_loaded else temp_assignments[agv]\<close>. A
  loaded AGV without a task fails with \<open>AttributeError\<close> when the path to the end point
  reads the task's end position; nothing is mutated in between.
\<close>

definition current_task :: "bool \<Rightarrow> (nat \<times> nat) list option \<Rightarrow> AgvContext \<Rightarrow> nat \<Rightarrow> error + nat" where
  "current_task loaded temp_assignments ctx i =
     (if loaded then
        (case loaded_task (agvs ctx ! i) of None \<Rightarrow> Inl AttributeError | Some j \<Rightarrow> Inr j)
      else
        (case temp_assignments of
           None \<Rightarrow> Inl TypeError
         | Some assignments \<Rightarrow>
             (case map_of assignments i of None \<Rightarrow> Inl KeyError | Some j \<Rightarrow> Inr j)))"

text \<open>
  The state of the loops of \<open>_batch_move_agvs\<close>: the context, \<open>handled_agvs\<close>,
  \<open>moved_items\<close> and \<open>is_assigned\<close>. \<open>batch_move_agv\<close> is the body of the \<open>for\<close> loop for
  the candidate \<open>i\<close>.
\<close>

type_synonym batch_state = "AgvContext \<times> nat list \<times> moved_item list \<times> bool"

definition batch_move_agv ::
  "bool \<Rightarrow> (nat \<times> nat) list option \<Rightarrow> nat \<Rightarrow> batch_state \<Rightarrow> batch_state outcome" where
  "batch_move_agv loaded temp_assignments i st =
     (case st of (ctx, handled_agvs, moved_items, is_assigned) \<Rightarrow>
        if i \<in> set handled_agvs \<or> is_loaded (agvs ctx ! i) \<noteq> loaded then Inr st
        else
          (case current_task loaded temp_assignments ctx i of
             Inl e \<Rightarrow> Inl (e, ctx)
           | Inr j \<Rightarrow>
               (let obstacles = get_obstacles ctx i
                in case (if loaded then calculate_path_to_end_point ctx i j obstacles
                         else calculate_path_to_pickup_position ctx i j obstacles) of
                     Inl e \<Rightarrow> Inl (e, ctx)
                   | Inr path \<Rightarrow>
                       (case calculate_path_timing path (pitch (agvs ctx ! i)) of
                          Inl e \<Rightarrow> Inl (e, ctx)
                        | Inr ptps \<Rightarrow>
                            (let a = (agvs ctx ! i)\<lparr>path_time_points := ptps\<rparr>;
                                 ctx1 = set_agv ctx i a
                             in if length ptps < 2 then
                                  Inr (ctx1, handled_agvs, moved_items, is_assigned)
                                else
                                  (case get_pitch_to_neighbour (position a) (ptp_position (ptps ! 1)) of
                                     Inl e \<Rightarrow> Inl (e, ctx1)
                                   | Inr expect_move_pitch \<Rightarrow>
                                       if expect_move_pitch \<noteq> pitch a then
                                         Inr (ctx1, handled_agvs, moved_items, is_assigned)
                                       else
                                         (case cross_turn ctx1 a (tasks ctx1 ! j) moved_items of
                                            Some turn_direction \<Rightarrow>
                                              (case turn a (Some turn_direction) of
                                                 Inl e \<Rightarrow> Inl (e, ctx1)
                                               | Inr turned \<Rightarrow>
                                                   Inr (set_agv ctx1 i (turned\<lparr>path_time_points := []\<rparr>),
                                                        handled_agvs @ [i], moved_items, True))
                                          | None \<Rightarrow>
                                              Inr (set_agv ctx1 i (move a),
                                                   handled_agvs @ [i],
                                                   moved_items @ [(i, position a, j)],
                                                   True))))))))"

fun batch_pass ::
  "bool \<Rightarrow> (nat \<times> nat) list option \<Rightarrow> nat list \<Rightarrow> batch_state \<Rightarrow> batch_state outcome" where
  "batch_pass loaded temp_assignments [] st = Inr st"
| "batch_pass loaded temp_assignments (i # rest) st =
     (case batch_move_agv loaded temp_assignments i st of
        Inl e \<Rightarrow> Inl e
      | Inr st' \<Rightarrow> batch_pass loaded temp_assignments rest st')"

lemma batch_move_agv_handled:
  assumes "batch_move_agv loaded temp_assignments i (ctx, handled, moved, assigned)
             = Inr (ctx', handled', moved', assigned')"
  shows "(handled' = handled \<and> assigned' = assigned) \<or>
         (i \<notin> set handled \<and> handled' = handled @ [i] \<and> assigned')"
  using assms
  by (auto simp: batch_move_agv_def Let_def split: if_splits sum.splits option.splits)

lemma batch_pass_handled:
  "batch_pass loaded temp_assignments cs (ctx, handled, moved, assigned)
     = Inr (ctx', handled', moved', assigned') \<Longrightarrow>
   set handled \<subseteq> set handled' \<and>
   (assigned' \<longrightarrow> assigned \<or> (\<exists>i \<in> set cs. i \<notin> set handled \<and> i \<in> set handled'))"
proof (induction cs arbitrary: ctx handled moved assigned)
  case Nil
  then show ?case by simp
next
  case (Cons c cs)
  from Cons.prems obtain ctx1 handled1 moved1 assigned1 where
    step: "batch_move_agv loaded temp_assignments c (ctx, handled, moved, assigned)
             = Inr (ctx1, handled1, moved1, assigned1)"
    and rest: "batch_pass loaded temp_assignments cs (ctx1, handled1, moved1, assigned1)
                 = Inr (ctx', handled', moved', assigned')"
    by (auto split: sum.splits)
  from Cons.IH [OF rest] have ih: "set handled1 \<subseteq> set handled'"
    "assigned' \<longrightarrow> assigned1 \<or> (\<exists>i \<in> set cs. i \<notin> set handled1 \<and> i \<in> set handled')"
    by auto
  from batch_move_agv_handled [OF step] show ?case
  proof
    assume "handled1 = handled \<and> assigned1 = assigned"
    with ih show ?thesis by auto
  next
    assume "c \<notin> set handled \<and> handled1 = handled @ [c] \<and> assigned1"
    with ih show ?thesis by auto
  qed
qed

text \<open>
  The \<open>while True\<close> loop of \<open>_batch_move_agvs\<close> repeats the pass over the candidates until
  a pass handles no AGV. A pass that handles one appends a candidate to \<open>handled_agvs\<close>
  that was not in it, so the number of unhandled candidates falls and the loop ends.
\<close>

definition unhandled_candidates :: "nat list \<Rightarrow> nat list \<Rightarrow> nat" where
  "unhandled_candidates candidates handled_agvs = card (set candidates - set handled_agvs)"

lemma batch_pass_progress:
  assumes "batch_pass loaded temp_assignments cs (ctx, handled, moved, False)
             = Inr (ctx', handled', moved', True)"
  shows "unhandled_candidates cs handled' < unhandled_candidates cs handled"
proof -
  from batch_pass_handled [OF assms] obtain i where
    sub: "set handled \<subseteq> set handled'" and i: "i \<in> set cs" "i \<notin> set handled" "i \<in> set handled'"
    by auto
  then have "set cs - set handled' \<subset> set cs - set handled" by auto
  then show ?thesis
    unfolding unhandled_candidates_def by (intro psubset_card_mono) auto
qed

function batch_loop ::
  "bool \<Rightarrow> (nat \<times> nat) list option \<Rightarrow> nat list \<Rightarrow> AgvContext \<Rightarrow> nat list \<Rightarrow> moved_item list \<Rightarrow>
   (AgvContext \<times> nat list) outcome" where
  "batch_loop loaded temp_assignments candidates ctx handled_agvs moved_items =
     (case batch_pass loaded temp_assignments candidates (ctx, handled_agvs, moved_items, False) of
        Inl e \<Rightarrow> Inl e
      | Inr (ctx', handled', moved', is_assigned) \<Rightarrow>
          if \<not> is_assigned then Inr (ctx', handled')
          else batch_loop loaded temp_assignments candidates ctx' handled' moved')"
  by pat_completeness auto
termination
proof (relation "measure (\<lambda>(loaded, temp_assignments, candidates, ctx, handled_agvs, moved_items).
                   unhandled_candidates candidates handled_agvs)")
  show "wf (measure (\<lambda>(loaded, temp_assignments, candidates, ctx, handled_agvs, moved_items).
                   unhandled_candidates candidates handled_agvs))"
    by simp
next
  fix loaded temp_assignments candidates ctx handled_agvs moved_items b x y xa ya xb yb
  assume "batch_pass loaded temp_assignments candidates (ctx, handled_agvs, moved_items, False) = Inr b"
    "(x, y) = b" "(xa, ya) = y" "(xb, yb) = ya" "\<not> \<not> yb"
  then have "batch_pass loaded temp_assignments candidates (ctx, handled_agvs, moved_items, False)
               = Inr (x, xa, xb, True)" by auto
  from batch_pass_progress [OF this]
  show "((loaded, temp_assignments, candidates, x, xa, xb),
         loaded, temp_assignments, candidates, ctx, handled_agvs, moved_items)
          \<in> measure (\<lambda>(loaded, temp_assignments, candidates, ctx, handled_agvs, moved_items).
                   unhandled_candidates candidates handled_agvs)"
    by simp
qed

declare batch_loop.simps [simp del]

definition batch_move_agvs ::
  "nat list \<Rightarrow> nat list \<Rightarrow> bool \<Rightarrow> (nat \<times> nat) list option \<Rightarrow> AgvContext \<Rightarrow>
   (AgvContext \<times> nat list) outcome" where
  "batch_move_agvs candidates handled_agvs loaded temp_assignments ctx =
     batch_loop loaded temp_assignments candidates ctx handled_agvs []"

subsection \<open>The phases of a tick\<close>

text \<open>Phase 1: unload. The loop runs over the indices of \<open>context.agvs\<close>.\<close>

fun unload_phase :: "int \<Rightarrow> nat list \<Rightarrow> AgvContext \<Rightarrow> nat list \<Rightarrow> AgvContext \<times> nat list" where
  "unload_phase timestamp_now [] ctx handled_agvs = (ctx, handled_agvs)"
| "unload_phase timestamp_now (i # rest) ctx handled_agvs =
     (if i \<in> set handled_agvs then unload_phase timestamp_now rest ctx handled_agvs
      else if can_unload ctx i then
        unload_phase timestamp_now rest (unload ctx i timestamp_now) (handled_agvs @ [i])
      else unload_phase timestamp_now rest ctx handled_agvs)"

text \<open>
  Phase 2: load. The inner loop takes the first task of \<open>pending_load_tasks\<close> whose pickup
  position is the AGV's position.
\<close>

fun load_phase ::
  "int \<Rightarrow> nat list \<Rightarrow> nat list \<Rightarrow> AgvContext \<Rightarrow> nat list \<Rightarrow> AgvContext \<times> nat list" where
  "load_phase timestamp_now pending_load_tasks [] ctx handled_agvs = (ctx, handled_agvs)"
| "load_phase timestamp_now pending_load_tasks (i # rest) ctx handled_agvs =
     (if i \<in> set handled_agvs \<or> is_loaded (agvs ctx ! i) then
        load_phase timestamp_now pending_load_tasks rest ctx handled_agvs
      else
        (case find (\<lambda>j. pickup_position (tasks ctx ! j) = position (agvs ctx ! i))
                   pending_load_tasks of
           None \<Rightarrow> load_phase timestamp_now pending_load_tasks rest ctx handled_agvs
         | Some j \<Rightarrow>
             load_phase timestamp_now pending_load_tasks rest
               (load ctx i j timestamp_now) (handled_agvs @ [i])))"

text \<open>Phase 4: the loaded AGVs that were not handled turn.\<close>

fun turn_loaded :: "nat list \<Rightarrow> AgvContext \<Rightarrow> nat list \<Rightarrow> (AgvContext \<times> nat list) outcome" where
  "turn_loaded [] ctx handled_agvs = Inr (ctx, handled_agvs)"
| "turn_loaded (i # rest) ctx handled_agvs =
     (if i \<in> set handled_agvs \<or> \<not> is_loaded (agvs ctx ! i) then turn_loaded rest ctx handled_agvs
      else
        (case should_turn (agvs ctx ! i) of
           Inl e \<Rightarrow> Inl (e, ctx)
         | Inr b \<Rightarrow>
             if b then
               (case turn (agvs ctx ! i) None of
                  Inl e \<Rightarrow> Inl (e, ctx)
                | Inr turned \<Rightarrow> turn_loaded rest (set_agv ctx i turned) (handled_agvs @ [i]))
             else turn_loaded rest ctx handled_agvs))"

text \<open>
  Phase 5: assignment. \<open>assignment_options\<close> is the loop over the idle AGVs that plans
  each one's path to the pickup position of the task. The options are sorted by the time
  cost of the last path point, an empty path counting as infinite: the key
  \<open>(False, c)\<close> of a path with cost \<open>c\<close> is below the key \<open>(True, 0)\<close> of an empty path.
  The dictionary \<open>temp_assignments\<close> is the list of its items in insertion order.
\<close>

fun assignment_options ::
  "AgvContext \<Rightarrow> nat \<Rightarrow> nat list \<Rightarrow> error + (nat \<times> PathTimePoint list) list" where
  "assignment_options ctx task [] = Inr []"
| "assignment_options ctx task (i # rest) =
     (let obstacles = get_obstacles ctx i
      in case calculate_path_to_pickup_position ctx i task obstacles of
           Inl e \<Rightarrow> Inl e
         | Inr path \<Rightarrow>
             (case calculate_path_timing path (pitch (agvs ctx ! i)) of
                Inl e \<Rightarrow> Inl e
              | Inr ptps \<Rightarrow>
                  (case assignment_options ctx task rest of
                     Inl e \<Rightarrow> Inl e
                   | Inr options \<Rightarrow> Inr ((i, ptps) # options))))"

definition option_key :: "nat \<times> PathTimePoint list \<Rightarrow> bool \<times> int" where
  "option_key x = (if snd x \<noteq> [] then (False, time_cost (last (snd x))) else (True, 0))"

fun dict_set :: "('k \<times> 'v) list \<Rightarrow> 'k \<Rightarrow> 'v \<Rightarrow> ('k \<times> 'v) list" where
  "dict_set [] k v = [(k, v)]"
| "dict_set ((k', v') # rest) k v =
     (if k' = k then (k, v) # rest else (k', v') # dict_set rest k v)"

type_synonym assign_state = "AgvContext \<times> nat list \<times> (nat \<times> nat) list"

text \<open>
  The body of the loop over the pending tasks, for one task, with a non-empty list of idle
  AGVs. The selected AGV comes from \<open>idle_agvs\<close>, so \<open>idle_agvs.remove\<close> finds it.
\<close>

definition assign_task :: "nat \<Rightarrow> assign_state \<Rightarrow> assign_state outcome" where
  "assign_task task st =
     (case st of (ctx, idle_agvs, temp_assignments) \<Rightarrow>
        (case assignment_options ctx task idle_agvs of
           Inl e \<Rightarrow> Inl (e, ctx)
         | Inr assignment_options_list \<Rightarrow>
             (case sort_key option_key assignment_options_list of
                [] \<Rightarrow> Inr st
              | (selected_agv, ptps) # others \<Rightarrow>
                  Inr (set_agv ctx selected_agv ((agvs ctx ! selected_agv)\<lparr>path_time_points := ptps\<rparr>),
                       remove1 selected_agv idle_agvs,
                       dict_set temp_assignments selected_agv task))))"

fun assign_tasks :: "nat list \<Rightarrow> assign_state \<Rightarrow> assign_state outcome" where
  "assign_tasks [] st = Inr st"
| "assign_tasks (task # rest) st =
     (if fst (snd st) = [] then Inr st
      else
        (case assign_task task st of
           Inl e \<Rightarrow> Inl e
         | Inr st' \<Rightarrow> assign_tasks rest st'))"

text \<open>
  Phase 6. \<open>select_agvs\<close> is a list comprehension over the keys of \<open>temp_assignments\<close> with
  a condition that can raise; \<open>turn_all\<close> turns the AGVs of \<open>turn_agvs\<close>.
\<close>

fun select_agvs :: "(Agv \<Rightarrow> error + bool) \<Rightarrow> AgvContext \<Rightarrow> nat list \<Rightarrow> error + nat list" where
  "select_agvs cond ctx [] = Inr []"
| "select_agvs cond ctx (i # rest) =
     (case cond (agvs ctx ! i) of
        Inl e \<Rightarrow> Inl e
      | Inr b \<Rightarrow>
          (case select_agvs cond ctx rest of
             Inl e \<Rightarrow> Inl e
           | Inr selected \<Rightarrow> Inr (if b then i # selected else selected)))"

fun turn_all :: "nat list \<Rightarrow> AgvContext \<Rightarrow> AgvContext outcome" where
  "turn_all [] ctx = Inr ctx"
| "turn_all (i # rest) ctx =
     (case turn (agvs ctx ! i) None of
        Inl e \<Rightarrow> Inl (e, ctx)
      | Inr turned \<Rightarrow> turn_all rest (set_agv ctx i turned))"

text \<open>
  Phase 7: parking. \<open>edge_points\<close> collects the edge cells that no loaded AGV blocks on
  the row or column of the AGV; \<open>min_by_key\<close> is \<open>min(points, key=...)\<close>, which keeps the
  first of the least elements.
\<close>

definition edge_points :: "AgvContext \<Rightarrow> nat \<Rightarrow> PointEx list" where
  "edge_points ctx i =
     (let x = px (position (agvs ctx ! i));
          y = py (position (agvs ctx ! i));
          loaded_agvs = filter is_loaded (agvs ctx)
      in (if \<not> list_ex (\<lambda>a. px (position a) = x \<and> py (position a) > y) loaded_agvs
          then [PointEx x 20] else []) @
         (if \<not> list_ex (\<lambda>a. px (position a) = x \<and> py (position a) < y) loaded_agvs
          then [PointEx x 1] else []) @
         (if \<not> list_ex (\<lambda>a. px (position a) > x \<and> py (position a) = y) loaded_agvs
          then [PointEx 20 y] else []) @
         (if \<not> list_ex (\<lambda>a. px (position a) < x \<and> py (position a) = y) loaded_agvs
          then [PointEx 1 y] else []))"

fun min_by_key :: "('a \<Rightarrow> int) \<Rightarrow> 'a \<Rightarrow> 'a list \<Rightarrow> 'a" where
  "min_by_key f best [] = best"
| "min_by_key f best (v # rest) =
     (if f v < f best then min_by_key f v rest else min_by_key f best rest)"

definition park_agv :: "nat \<Rightarrow> AgvContext \<Rightarrow> AgvContext outcome" where
  "park_agv i ctx =
     (let additional_obstacles = get_obstacles ctx i;
          obstacles = build_obstacles ctx additional_obstacles;
          idle_agv = agvs ctx ! i
      in case edge_points ctx i of
           [] \<Rightarrow> Inr ctx
         | p # ps \<Rightarrow>
             (let goal = min_by_key
                           (\<lambda>point. \<bar>px point - px (position idle_agv)\<bar> +
                                    \<bar>py point - py (position idle_agv)\<bar>) p ps
              in case a_star_with_orientation (position idle_agv) goal (pitch idle_agv)
                        (set obstacles) None of
                   Inl e \<Rightarrow> Inl (e, ctx)
                 | Inr path \<Rightarrow>
                     (case calculate_path_timing path (pitch idle_agv) of
                        Inl e \<Rightarrow> Inl (e, ctx)
                      | Inr ptps \<Rightarrow>
                          (let a = idle_agv\<lparr>path_time_points := ptps\<rparr>;
                               ctx1 = set_agv ctx i a
                           in case should_move a of
                                Inl e \<Rightarrow> Inl (e, ctx1)
                              | Inr will_move \<Rightarrow>
                                  if will_move then Inr (set_agv ctx1 i (move a))
                                  else
                                    (case should_turn a of
                                       Inl e \<Rightarrow> Inl (e, ctx1)
                                     | Inr will_turn \<Rightarrow>
                                         if will_turn then
                                           (case turn a None of
                                              Inl e \<Rightarrow> Inl (e, ctx1)
                                            | Inr turned \<Rightarrow> Inr (set_agv ctx1 i turned))
                                         else Inr ctx1)))))"

fun park_idle :: "nat list \<Rightarrow> AgvContext \<Rightarrow> AgvContext outcome" where
  "park_idle [] ctx = Inr ctx"
| "park_idle (i # rest) ctx =
     (case park_agv i ctx of
        Inl e \<Rightarrow> Inl e
      | Inr ctx' \<Rightarrow> park_idle rest ctx')"

subsection \<open>A tick\<close>

text \<open>
  The body of \<open>process\<close> after the time stamp has been advanced, in three parts: the phases
  for the loaded AGVs (1 to 4), the phases for the idle AGVs (5 and 6) and the parking
  and recording (7 and 8). \<open>agv_ids\<close> are the indices of \<open>context.agvs\<close>.
\<close>

definition process_loaded :: "int \<Rightarrow> AgvContext \<Rightarrow> (AgvContext \<times> nat list) outcome" where
  "process_loaded timestamp_now ctx =
     (let agv_ids = [0..<length (agvs ctx)]
      in case unload_phase timestamp_now agv_ids ctx [] of
           (ctx1, handled1) \<Rightarrow>
             (case get_sorted_pending_tasks (tasks ctx1) of
                Inl e \<Rightarrow> Inl (e, ctx1)
              | Inr pending_load_tasks \<Rightarrow>
                  (case load_phase timestamp_now pending_load_tasks agv_ids ctx1 handled1 of
                     (ctx2, handled2) \<Rightarrow>
                       (let loaded_agvs = filter (\<lambda>i. is_loaded (agvs ctx2 ! i)) agv_ids
                        in case batch_move_agvs loaded_agvs handled2 True None ctx2 of
                             Inl e \<Rightarrow> Inl e
                           | Inr (ctx3, handled3) \<Rightarrow> turn_loaded agv_ids ctx3 handled3))))"

definition process_idle ::
  "nat list \<Rightarrow> AgvContext \<Rightarrow> nat list \<Rightarrow> (AgvContext \<times> nat list) outcome" where
  "process_idle pending ctx handled_agvs =
     (let agv_ids = [0..<length (agvs ctx)];
          idle_agvs = filter (\<lambda>i. i \<notin> set handled_agvs \<and> \<not> is_loaded (agvs ctx ! i)) agv_ids
      in case assign_tasks pending (ctx, idle_agvs, []) of
           Inl e \<Rightarrow> Inl e
         | Inr (ctx1, idle_left, temp_assignments) \<Rightarrow>
             (case select_agvs should_turn ctx1 (map fst temp_assignments) of
                Inl e \<Rightarrow> Inl (e, ctx1)
              | Inr turn_agvs \<Rightarrow>
                  (case select_agvs should_move ctx1 (map fst temp_assignments) of
                     Inl e \<Rightarrow> Inl (e, ctx1)
                   | Inr move_agvs \<Rightarrow>
                       (case turn_all turn_agvs ctx1 of
                          Inl e \<Rightarrow> Inl e
                        | Inr ctx2 \<Rightarrow>
                            batch_move_agvs move_agvs handled_agvs False (Some temp_assignments) ctx2))))"

definition process_phases :: "int \<Rightarrow> AgvContext \<Rightarrow> AgvContext outcome" where
  "process_phases timestamp_now ctx =
     (case process_loaded timestamp_now ctx of
        Inl e \<Rightarrow> Inl e
      | Inr (ctx1, handled1) \<Rightarrow>
          (case get_sorted_pending_tasks (tasks ctx1) of
             Inl e \<Rightarrow> Inl (e, ctx1)
           | Inr pending \<Rightarrow>
               (case process_idle pending ctx1 handled1 of
                  Inl e \<Rightarrow> Inl e
                | Inr (ctx2, handled2) \<Rightarrow>
                    (case (if pending = []
                           then park_idle (filter (\<lambda>i. i \<notin> set handled2) [0..<length (agvs ctx2)]) ctx2
                           else Inr ctx2) of
                       Inl e \<Rightarrow> Inl e
                     | Inr ctx3 \<Rightarrow> Inr (recorder_add ctx3 timestamp_now)))))"

text \<open>
  \<open>process\<close>: the deadlock guard, the time stamp, the phases. An exception is returned with
  the scheduler as it is when the exception is raised.
\<close>

definition process :: "SchedulerService \<Rightarrow> (error \<times> SchedulerService) + SchedulerService" where
  "process s =
     (if timestamp s > MAX_TIMESTAMP then Inl (DeadlockExceeded, s)
      else
        (let s1 = s\<lparr>timestamp := timestamp s + 1\<rparr>
         in case process_phases (timestamp s1) (sched_context s1) of
              Inl (e, ctx) \<Rightarrow> Inl (e, s1\<lparr>sched_context := ctx\<rparr>)
            | Inr ctx \<Rightarrow> Inr (s1\<lparr>sched_context := ctx\<rparr>)))"

lemma process_timestamp:
  "process s = Inr s' \<Longrightarrow> timestamp s \<le> MAX_TIMESTAMP \<and> timestamp s' = timestamp s + 1"
  by (auto simp: process_def Let_def split: if_splits sum.splits)

text \<open>
  \<open>process_to_complete\<close>: every tick that returns advances the time stamp by one and no
  tick returns once the time stamp is above \<open>MAX_TIMESTAMP\<close>, so the loop ends.
\<close>

function process_to_complete :: "SchedulerService \<Rightarrow> (error \<times> SchedulerService) + SchedulerService" where
  "process_to_complete s =
     (if \<not> all_tasks_completed (sched_context s) then
        (case process s of
           Inl e \<Rightarrow> Inl e
         | Inr s' \<Rightarrow> process_to_complete s')
      else Inr s)"
  by pat_completeness auto
termination
proof (relation "measure (\<lambda>s. nat (MAX_TIMESTAMP + 1 - timestamp s))")
  show "wf (measure (\<lambda>s. nat (MAX_TIMESTAMP + 1 - timestamp s)))"
    by simp
next
  fix s s'
  assume "process s = Inr s'"
  from process_timestamp [OF this]
  show "(s', s) \<in> measure (\<lambda>s. nat (MAX_TIMESTAMP + 1 - timestamp s))"
    by simp
qed

declare process_to_complete.simps [simp del]

text \<open>A run of at most \<open>n\<close> ticks; it stops at the first exception.\<close>

fun run_ticks :: "nat \<Rightarrow> SchedulerService \<Rightarrow> (error \<times> SchedulerService) + SchedulerService" where
  "run_ticks 0 s = Inr s"
| "run_ticks (Suc n) s =
     (case process s of
        Inl e \<Rightarrow> Inl e
      | Inr s' \<Rightarrow> run_ticks n s')"

subsection \<open>The cross turn in the words of the specification\<close>

text \<open>
  \<open>cross_turn_case a task moved_agv moved_pos moved_task d\<close>: the candidate \<open>a\<close> with task
  \<open>task\<close> must turn to \<open>d\<close> because of the moved AGV \<open>moved_agv\<close>, which has the same pitch,
  stood at \<open>moved_pos\<close> before it moved and has the task \<open>moved_task\<close>. For a horizontal
  pitch the moved AGV stood directly above (\<open>y + 1\<close>, turn to \<open>UP\<close>) or below (\<open>y - 1\<close>, turn
  to \<open>DOWN\<close>) and the end positions lie on opposite sides; for a vertical pitch the same
  with the columns and \<open>LEFT\<close>, \<open>RIGHT\<close>. \<open>item_turn\<close> is the turn one moved item asks for.
\<close>

definition cross_turn_case :: "Agv \<Rightarrow> TaskEx \<Rightarrow> Agv \<Rightarrow> PointEx \<Rightarrow> TaskEx \<Rightarrow> Direction \<Rightarrow> bool" where
  "cross_turn_case a current_agv_task moved_agv moved_pos moved_task d \<longleftrightarrow>
     pitch moved_agv = pitch a \<and>
     (case d of
        UP \<Rightarrow> pitch a \<in> {LEFT, RIGHT} \<and> px moved_pos = px (position a) \<and>
              py moved_pos = py (position a) + 1 \<and>
              py (end_position current_agv_task) > py (position a) \<and>
              py (end_position moved_task) \<le> py (position moved_agv)
      | DOWN \<Rightarrow> pitch a \<in> {LEFT, RIGHT} \<and> px moved_pos = px (position a) \<and>
              py moved_pos = py (position a) - 1 \<and>
              py (end_position current_agv_task) < py (position a) \<and>
              py (end_position moved_task) \<ge> py (position moved_agv)
      | LEFT \<Rightarrow> pitch a \<in> {UP, DOWN} \<and> py moved_pos = py (position a) \<and>
              px moved_pos = px (position a) - 1 \<and>
              px (end_position current_agv_task) < px (position a) \<and>
              px (end_position moved_task) \<ge> px (position moved_agv)
      | RIGHT \<Rightarrow> pitch a \<in> {UP, DOWN} \<and> py moved_pos = py (position a) \<and>
              px moved_pos = px (position a) + 1 \<and>
              px (end_position current_agv_task) > px (position a) \<and>
              px (end_position moved_task) \<le> px (position moved_agv))"

definition item_turn :: "Agv \<Rightarrow> TaskEx \<Rightarrow> Agv \<Rightarrow> PointEx \<Rightarrow> TaskEx \<Rightarrow> Direction option" where
  "item_turn a t ma mp mt =
     (if cross_turn_case a t ma mp mt UP then Some UP
      else if cross_turn_case a t ma mp mt DOWN then Some DOWN
      else if cross_turn_case a t ma mp mt LEFT then Some LEFT
      else if cross_turn_case a t ma mp mt RIGHT then Some RIGHT
      else None)"

subsection \<open>The invariant of the context\<close>

text \<open>
  \<open>chain_ok p qs\<close>: every step of the walk from \<open>p\<close> through \<open>qs\<close> goes to a 4-adjacent cell.
  \<open>path_chain p ptps\<close>: the path time points are empty, or start at \<open>p\<close> and form such a walk.
  \<open>agv_ok m a\<close>: the AGV is loaded exactly when it has a task, its task is one of the \<open>m\<close>
  tasks and its path starts at its position. \<open>ctx_inv D n m F ctx\<close>: the context has \<open>n\<close>
  AGVs, \<open>m\<close> tasks whose end positions are fixed obstacles, the fixed obstacles \<open>F\<close>, and
  every AGV is \<open>agv_ok\<close>; with \<open>D\<close> the AGVs are moreover on pairwise distinct cells.
\<close>

fun chain_ok :: "PointEx \<Rightarrow> PointEx list \<Rightarrow> bool" where
  "chain_ok p [] = True"
| "chain_ok p (q # qs) = (is_neighbour p q \<and> chain_ok q qs)"

definition path_chain :: "PointEx \<Rightarrow> PathTimePoint list \<Rightarrow> bool" where
  "path_chain p ptps =
     (case ptps of
        [] \<Rightarrow> True
      | first_point # rest \<Rightarrow> ptp_position first_point = p \<and> chain_ok p (map ptp_position rest))"

definition agv_ok :: "nat \<Rightarrow> Agv \<Rightarrow> bool" where
  "agv_ok m a \<longleftrightarrow>
     (is_loaded a \<longleftrightarrow> loaded_task a \<noteq> None) \<and>
     (case loaded_task a of None \<Rightarrow> True | Some j \<Rightarrow> j < m) \<and>
     path_chain (position a) (path_time_points a)"

definition ctx_inv :: "bool \<Rightarrow> nat \<Rightarrow> nat \<Rightarrow> PointEx list \<Rightarrow> AgvContext \<Rightarrow> bool" where
  "ctx_inv D n m F ctx \<longleftrightarrow>
     length (agvs ctx) = n \<and> length (tasks ctx) = m \<and> fixed_map_obstacles ctx = F \<and>
     (D \<longrightarrow> distinct (map position (agvs ctx))) \<and>
     list_all (\<lambda>t. end_position t \<in> set F) (tasks ctx) \<and>
     list_all (agv_ok m) (agvs ctx)"

text \<open>
  The invariant of the assignment loop: the context, and the idle AGVs and the keys of the
  temporary assignment table are AGVs of the context. \<open>sched_inv\<close> is the invariant of the
  scheduler.
\<close>

definition assign_inv :: "bool \<Rightarrow> nat \<Rightarrow> nat \<Rightarrow> PointEx list \<Rightarrow> assign_state \<Rightarrow> bool" where
  "assign_inv D n m F st \<longleftrightarrow>
     (case st of (ctx, idle, temp_assignments) \<Rightarrow>
        ctx_inv D n m F ctx \<and> list_all (\<lambda>i. i < n) idle \<and>
        list_all (\<lambda>i. i < n) (map fst temp_assignments))"

definition sched_inv :: "bool \<Rightarrow> nat \<Rightarrow> nat \<Rightarrow> PointEx list \<Rightarrow> SchedulerService \<Rightarrow> bool" where
  "sched_inv D n m F s \<longleftrightarrow> ctx_inv D n m F (sched_context s)"

text \<open>
  A result that is not the deadlock exception: \<open>benign\<close> for a function that raises without
  a context, \<open>no_deadlock\<close> for one that returns the context with the exception.
\<close>

definition benign :: "error + 'a \<Rightarrow> bool" where
  "benign r \<longleftrightarrow> r \<noteq> Inl DeadlockExceeded"

definition no_deadlock :: "(error \<times> 'c) + 'a \<Rightarrow> bool" where
  "no_deadlock r \<longleftrightarrow> (\<forall>c. r \<noteq> Inl (DeadlockExceeded, c))"

subsection \<open>Example contexts\<close>

text \<open>
  Two loaded AGVs on adjacent rows, both heading right: the first has moved from (2, 3) to
  (3, 3) and delivers below its row, the second stands at (2, 2) and delivers above its row.
\<close>

definition crossing_context :: AgvContext where
  "crossing_context =
     \<lparr>map_elements = [], task_records = [],
      tasks =
        [(TaskEx_init \<lparr>task_id = ''T1'', start_point = ''S1'', end_point = ''E1'', priority = NORMAL,
                        remaining_time = None\<rparr> (PointEx 1 3) (PointEx 5 1))\<lparr>agv := Some 0\<rparr>,
         (TaskEx_init \<lparr>task_id = ''T2'', start_point = ''S2'', end_point = ''E2'', priority = NORMAL,
                        remaining_time = None\<rparr> (PointEx 1 2) (PointEx 4 3))\<lparr>agv := Some 1\<rparr>],
      agvs =
        [\<lparr>name = ''A1'', position = PointEx 3 3, pitch = RIGHT, is_loaded = True,
          loaded_task = Some 0, path_time_points = []\<rparr>,
         \<lparr>name = ''A2'', position = PointEx 2 2, pitch = RIGHT, is_loaded = True,
          loaded_task = Some 1, path_time_points = []\<rparr>],
      fixed_map_obstacles = [PointEx 1 3, PointEx 5 1, PointEx 1 2, PointEx 4 3],
      map_bounds = \<lparr>rect_left = 1, rect_top = 1, rect_right = 5, rect_bottom = 3\<rparr>,
      trajectory_records = []\<rparr>"

text \<open>
  Two idle AGVs that cannot leave their cells, and a task whose pickup position neither
  can reach.
\<close>

definition boxed_context :: AgvContext where
  "boxed_context =
     \<lparr>map_elements = [], task_records = [],
      tasks =
        [TaskEx_init \<lparr>task_id = ''T1'', start_point = ''S1'', end_point = ''E1'', priority = NORMAL,
                        remaining_time = None\<rparr> (PointEx 2 1) (PointEx 5 1)],
      agvs =
        [\<lparr>name = ''A1'', position = PointEx 1 1, pitch = RIGHT, is_loaded = False,
          loaded_task = None, path_time_points = []\<rparr>,
         \<lparr>name = ''A2'', position = PointEx 0 1, pitch = RIGHT, is_loaded = False,
          loaded_task = None, path_time_points = []\<rparr>],
      fixed_map_obstacles = [PointEx 2 1, PointEx 5 1, PointEx 1 2, PointEx 0 2],
      map_bounds = \<lparr>rect_left = 1, rect_top = 1, rect_right = 5, rect_bottom = 1\<rparr>,
      trajectory_records = []\<rparr>"

text \<open>
  A map with two AGVs, a start point and an end point, and one task between the two
  points.
\<close>

definition example_elements :: "MapElement list" where
  "example_elements =
     [\<lparr>element_type = AGV, element_name = ''A1'', element_x = 2, element_y = 2,
       element_pitch = Some RIGHT\<rparr>,
      \<lparr>element_type = AGV, element_name = ''A2'', element_x = 3, element_y = 2,
       element_pitch = Some LEFT\<rparr>,
      \<lparr>element_type = START_POINT, element_name = ''S1'', element_x = 5, element_y = 2,
       element_pitch = None\<rparr>,
      \<lparr>element_type = END_POINT, element_name = ''E1'', element_x = 8, element_y = 2,
       element_pitch = None\<rparr>]"

definition example_records :: "TaskRecord list" where
  "example_records =
     [\<lparr>task_id = ''T1'', start_point = ''S1'', end_point = ''E1'', priority = NORMAL,
       remaining_time = None\<rparr>]"

section \<open>Properties of the planner\<close>

lemma is_neighbour_pitch:
  "is_neighbour p q \<Longrightarrow> \<exists>d. get_pitch_to_neighbour p q = Inr d"
  by (auto simp: is_neighbour_def get_pitch_to_neighbour_def)

lemma steps_ok_snoc:
  "steps_ok gsize obstacles p (qs @ [q]) \<longleftrightarrow>
     steps_ok gsize obstacles p qs \<and> is_neighbour (last (p # qs)) q \<and>
     1 \<le> px q \<and> px q \<le> fst gsize \<and> 1 \<le> py q \<and> py q \<le> snd gsize \<and> q \<notin> obstacles"
  by (induction qs arbitrary: p) auto

lemma walk_snoc:
  "steps_ok gsize obstacles p qs \<Longrightarrow> get_pitch_to_neighbour (last (p # qs)) q = Inr nd \<Longrightarrow>
   walk p (qs @ [q]) t d =
     (fst (walk p qs t d) + (if nd \<noteq> snd (walk p qs t d) then TURN_COST else 0) + MOVE_COST, nd)"
proof (induction qs arbitrary: p t d)
  case Nil
  then show ?case by simp
next
  case (Cons a qs)
  from Cons.prems(1) obtain ad where ad: "get_pitch_to_neighbour p a = Inr ad"
    using is_neighbour_pitch by fastforce
  from Cons.prems have "steps_ok gsize obstacles a qs" "get_pitch_to_neighbour (last (a # qs)) q = Inr nd"
    by auto
  from Cons.IH [OF this] show ?case
    by (simp add: ad)
qed

lemma get_neighbors_step:
  assumes "(p, d, c) \<in> set (get_neighbors gsize obstacles pos ori)"
  shows "is_neighbour pos p" "get_pitch_to_neighbour pos p = Inr d"
    "1 \<le> px p" "px p \<le> fst gsize" "1 \<le> py p" "py p \<le> snd gsize" "p \<notin> obstacles"
    "c = MOVE_COST + (if d \<noteq> ori then TURN_COST else 0)"
  using assms
  by (auto simp: get_neighbors_mem directions_def is_neighbour_def get_pitch_to_neighbour_def)

lemma node_ok_step:
  assumes "node_ok gsize obstacles start orientation (prio, cost, pos, ori, path)"
    and "(p, d, c) \<in> set (get_neighbors gsize obstacles pos ori)"
  shows "node_ok gsize obstacles start orientation (prio', cost + c, p, d, path @ [p])"
proof -
  from assms(1) obtain rest where path: "path = start # rest"
    and ok: "steps_ok gsize obstacles start rest" and l: "last (start # rest) = pos"
    and w: "walk start rest 0 orientation = (cost, ori)"
    by (cases path) (auto simp: node_ok_def)
  note st = get_neighbors_step [OF assms(2)]
  have "steps_ok gsize obstacles start (rest @ [p])"
    using ok st l by (simp add: steps_ok_snoc)
  moreover have "walk start (rest @ [p]) 0 orientation = (cost + c, d)"
    using walk_snoc [OF ok, of p d 0 orientation] st(2) st(8) l w by simp
  ultimately show ?thesis
    by (simp add: node_ok_def path)
qed

lemma frontier_ok_enqueue:
  "frontier_ok gsize obstacles start orientation frontier \<Longrightarrow>
   node_ok gsize obstacles start orientation node \<Longrightarrow>
   frontier_ok gsize obstacles start orientation (enqueue frontier node p)"
  by (simp add: frontier_ok_def enqueue_def list_all_iff set_heappush)

lemma frontier_ok_expand:
  assumes "node_ok gsize obstacles start orientation (prio, cost, pos, ori, path)"
    and "set ns \<subseteq> set (get_neighbors gsize obstacles pos ori)"
    and "frontier_ok gsize obstacles start orientation frontier"
  shows "frontier_ok gsize obstacles start orientation
           (expand_neighbours goal visited cost path ns frontier)"
  using assms(2,3)
proof (induction ns arbitrary: frontier)
  case Nil
  then show ?case by simp
next
  case (Cons n ns)
  obtain p d c where n: "n = (p, d, c)" by (cases n) auto
  have mem: "(p, d, c) \<in> set (get_neighbors gsize obstacles pos ori)"
    using Cons.prems(1) n by simp
  have sub: "set ns \<subseteq> set (get_neighbors gsize obstacles pos ori)"
    using Cons.prems(1) by simp
  have "frontier_ok gsize obstacles start orientation
          (enqueue frontier (cost + c + manhattan p goal, cost + c, p, d, path @ [p])
             (cost + c + manhattan p goal))"
    by (rule frontier_ok_enqueue [OF Cons.prems(2) node_ok_step [OF assms(1) mem]])
  from Cons.IH [OF sub this] Cons.IH [OF sub Cons.prems(2)]
  show ?case by (simp add: n Let_def)
qed

lemma frontier_ok_dequeue:
  "frontier_ok gsize obstacles start orientation frontier \<Longrightarrow>
   dequeue frontier = Inr (node, frontier') \<Longrightarrow>
   node_ok gsize obstacles start orientation node \<and>
   frontier_ok gsize obstacles start orientation frontier'"
  by (auto simp: frontier_ok_def dequeue_def split: list.splits)

lemma dequeue_nonempty: "0 < count frontier \<Longrightarrow> \<exists>node frontier'. dequeue frontier = Inr (node, frontier')"
  by (cases "pq_heap frontier") (auto simp: count_def dequeue_def)

lemma a_star_loop_result:
  "frontier_ok gsize obstacles start orientation frontier \<Longrightarrow>
   a_star_loop gsize goal obstacles frontier visited = Inr None \<or>
   (\<exists>prio cost ori path.
      a_star_loop gsize goal obstacles frontier visited = Inr (Some (prio, cost, goal, ori, path)) \<and>
      node_ok gsize obstacles start orientation (prio, cost, goal, ori, path))"
proof (induction gsize goal obstacles frontier visited rule: a_star_loop.induct)
  case (1 gsize goal obstacles frontier visited)
  show ?case
  proof (cases "0 < count frontier")
    case False
    then show ?thesis by (simp add: a_star_loop.simps)
  next
    case True
    then obtain node frontier' where dq: "dequeue frontier = Inr (node, frontier')"
      using dequeue_nonempty by blast
    obtain prio cost pos ori path where node: "node = (prio, cost, pos, ori, path)"
      by (cases node) auto
    from frontier_ok_dequeue [OF "1.prems" dq]
    have nok: "node_ok gsize obstacles start orientation (prio, cost, pos, ori, path)"
      and fok: "frontier_ok gsize obstacles start orientation frontier'"
      by (simp_all add: node)
    show ?thesis
    proof (cases "pos = goal")
      case True
      then show ?thesis
        using nok \<open>0 < count frontier\<close> dq node
        by (subst a_star_loop.simps, subst a_star_loop.simps) simp
    next
      case ng: False
      show ?thesis
      proof (cases "(pos, ori) \<in> visited")
        case True
        from "1.IH"(1) [OF \<open>0 < count frontier\<close> dq [unfolded node] refl refl refl refl refl ng True fok] 
        show ?thesis
          using \<open>0 < count frontier\<close> dq node ng True
          by (subst a_star_loop.simps, subst a_star_loop.simps) simp
      next
        case False
        have "frontier_ok gsize obstacles start orientation
                (expand_neighbours goal (insert (pos, ori) visited) cost path
                   (get_neighbors gsize obstacles pos ori) frontier')"
          by (rule frontier_ok_expand [OF nok subset_refl fok])
        from "1.IH"(2) [OF \<open>0 < count frontier\<close> dq [unfolded node] refl refl refl refl refl ng False this]
        show ?thesis
          using \<open>0 < count frontier\<close> dq node ng False
          by (subst a_star_loop.simps, subst a_star_loop.simps) simp
      qed
    qed
  qed
qed

lemma timing_loop_steps:
  "steps_ok gsize obstacles p qs \<Longrightarrow>
   \<exists>r. timing_loop p qs t d = Inr r \<and> map ptp_position r = qs \<and>
       (qs \<noteq> [] \<longrightarrow> time_cost (last r) = fst (walk p qs t d))"
proof (induction qs arbitrary: p t d)
  case Nil
  then show ?case by simp
next
  case (Cons q qs)
  from Cons.prems obtain nd where nd: "get_pitch_to_neighbour p q = Inr nd"
    using is_neighbour_pitch by fastforce
  let ?t = "t + (if nd \<noteq> d then TURN_COST else 0) + MOVE_COST"
  from Cons.prems have "steps_ok gsize obstacles q qs" by simp
  from Cons.IH [OF this, of ?t nd] obtain r where
    r: "timing_loop q qs ?t nd = Inr r" "map ptp_position r = qs"
       "qs \<noteq> [] \<longrightarrow> time_cost (last r) = fst (walk q qs ?t nd)"
    by blast
  show ?case
  proof (cases "nd = d")
    case True
    then show ?thesis using r nd by (cases "qs = []") (auto simp: Let_def)
  next
    case False
    then show ?thesis using r nd by (cases "qs = []") (auto simp: Let_def)
  qed
qed

lemma node_ok_timing:
  assumes "node_ok gsize obstacles start orientation (prio, cost, pos, ori, path)"
  shows "\<exists>ptps. calculate_path_timing path orientation = Inr ptps \<and> map ptp_position ptps = path \<and>
           time_cost (hd ptps) = 0 \<and> time_cost (last ptps) = cost"
proof -
  from assms obtain rest where path: "path = start # rest"
    and ok: "steps_ok gsize obstacles start rest"
    and w: "walk start rest 0 orientation = (cost, ori)"
    by (cases path) (auto simp: node_ok_def)
  from timing_loop_steps [OF ok, of 0 orientation] obtain r where
    r: "timing_loop start rest 0 orientation = Inr r" "map ptp_position r = rest"
       "rest \<noteq> [] \<longrightarrow> time_cost (last r) = fst (walk start rest 0 orientation)"
    by blast
  show ?thesis
    using r w by (cases "rest = []") (auto simp: calculate_path_timing_def path)
qed

lemma initial_frontier_ok:
  "frontier_ok gsize obstacles start orientation (initial_frontier start goal orientation)"
  by (simp add: frontier_ok_def initial_frontier_def enqueue_def empty_queue_def node_ok_def)

lemma a_star_search_result:
  "a_star_search start goal orientation obstacles grid_size = Inr None \<or>
   (\<exists>prio cost ori path.
      a_star_search start goal orientation obstacles grid_size = Inr (Some (prio, cost, goal, ori, path)) \<and>
      node_ok (grid_bounds grid_size) obstacles start orientation (prio, cost, goal, ori, path))"
  unfolding a_star_search_def
  by (rule a_star_loop_result [OF initial_frontier_ok])

lemma node_ok_path:
  "node_ok gsize obstacles start orientation (prio, cost, pos, ori, path) \<Longrightarrow>
   path \<noteq> [] \<and> hd path = start \<and> last path = pos \<and> steps_ok gsize obstacles start (tl path)"
  by (simp add: node_ok_def)

lemma steps_ok_last:
  "steps_ok gsize obstacles p qs \<Longrightarrow> last (p # qs) = p \<or> last (p # qs) \<notin> obstacles"
  by (induction qs arbitrary: p) auto

lemmas a_star_eval = a_star_with_orientation_def a_star_search_def grid_bounds_def initial_frontier_def
  enqueue_def empty_queue_def manhattan_def count_def dequeue_def get_neighbors_def directions_def
  MOVE_COST_def TURN_COST_def entry_less_def a_star_loop.simps GRID_SIZE_def

text \<open>
  Claim C5. Whenever \<open>a_star_with_orientation\<close> returns a non-empty path, the search popped
  a tuple with that path and an accumulated cost \<open>cost\<close>; \<open>calculate_path_timing\<close> of the
  path with the same initial orientation does not raise, its first element has time cost 0
  and its last element has time cost \<open>cost\<close>.
\<close>

theorem path_timing_matches_g_cost:
  assumes "a_star_with_orientation start goal orientation obstacles grid_size = Inr path"
    and "path \<noteq> []"
  shows "\<exists>prio cost pos ori ptps.
           a_star_search start goal orientation obstacles grid_size
             = Inr (Some (prio, cost, pos, ori, path)) \<and>
           calculate_path_timing path orientation = Inr ptps \<and> ptps \<noteq> [] \<and>
           time_cost (hd ptps) = 0 \<and> time_cost (last ptps) = cost"
proof -
  from a_star_search_result [of start goal orientation obstacles grid_size] assms
  obtain prio cost ori where
    s: "a_star_search start goal orientation obstacles grid_size = Inr (Some (prio, cost, goal, ori, path))"
    and ok: "node_ok (grid_bounds grid_size) obstacles start orientation (prio, cost, goal, ori, path)"
    by (auto simp: a_star_with_orientation_def)
  from node_ok_timing [OF ok] obtain ptps where
    "calculate_path_timing path orientation = Inr ptps" "map ptp_position ptps = path"
    "time_cost (hd ptps) = 0" "time_cost (last ptps) = cost"
    by blast
  with s assms(2) show ?thesis by auto
qed

theorem path_timing_matches_g_cost_witness:
  "a_star_with_orientation (PointEx 1 1) (PointEx 2 2) RIGHT {} (Some (2, 2))
     = Inr [PointEx 1 1, PointEx 2 1, PointEx 2 2] \<and>
   (\<exists>prio cost pos ori ptps.
      a_star_search (PointEx 1 1) (PointEx 2 2) RIGHT {} (Some (2, 2))
        = Inr (Some (prio, cost, pos, ori, [PointEx 1 1, PointEx 2 1, PointEx 2 2])) \<and>
      calculate_path_timing [PointEx 1 1, PointEx 2 1, PointEx 2 2] RIGHT = Inr ptps \<and> ptps \<noteq> [] \<and>
      time_cost (hd ptps) = 0 \<and> time_cost (last ptps) = cost)"
proof -
  have e: "a_star_with_orientation (PointEx 1 1) (PointEx 2 2) RIGHT {} (Some (2, 2))
             = Inr [PointEx 1 1, PointEx 2 1, PointEx 2 2]"
    by (simp add: a_star_eval)
  have n: "[PointEx 1 1, PointEx 2 1, PointEx 2 2] \<noteq> []" by simp
  from path_timing_matches_g_cost [OF e n] e show ?thesis by blast
qed

text \<open>
  Claim C6. \<open>a_star_with_orientation\<close> never raises. It returns the empty list, or a list
  that starts at \<open>start\<close>, ends at \<open>goal\<close> and in which every step goes to a 4-adjacent cell
  inside the grid bounds and outside the obstacle set. When the search ends without having
  popped the goal the result is the empty list, and the loop ends that way as soon as the
  frontier is empty.
\<close>

theorem a_star_path_or_empty:
  "(\<exists>path. a_star_with_orientation start goal orientation obstacles grid_size = Inr path \<and>
      (path = [] \<or>
       (hd path = start \<and> last path = goal \<and>
        steps_ok (grid_bounds grid_size) obstacles start (tl path))) \<and>
      (a_star_search start goal orientation obstacles grid_size = Inr None \<longrightarrow> path = [])) \<and>
   (count frontier = 0 \<longrightarrow> a_star_loop gsize goal obstacles frontier visited = Inr None)"
proof -
  have "count frontier = 0 \<longrightarrow> a_star_loop gsize goal obstacles frontier visited = Inr None"
    by (simp add: a_star_loop.simps)
  moreover have "\<exists>path. a_star_with_orientation start goal orientation obstacles grid_size = Inr path \<and>
      (path = [] \<or>
       (hd path = start \<and> last path = goal \<and>
        steps_ok (grid_bounds grid_size) obstacles start (tl path))) \<and>
      (a_star_search start goal orientation obstacles grid_size = Inr None \<longrightarrow> path = [])"
    using a_star_search_result [of start goal orientation obstacles grid_size]
    by (auto simp: a_star_with_orientation_def dest: node_ok_path)
  ultimately show ?thesis by blast
qed

theorem a_star_path_or_empty_witness:
  "a_star_search (PointEx 1 1) (PointEx 2 2) RIGHT {} (Some (1, 1)) = Inr None \<and>
   a_star_with_orientation (PointEx 1 1) (PointEx 2 2) RIGHT {} (Some (1, 1)) = Inr [] \<and>
   count (empty_queue :: search_node SimplePriorityQueue) = 0 \<and>
   a_star_loop (1, 1) (PointEx 2 2) {} empty_queue {} = Inr None"
proof -
  have s: "a_star_search (PointEx 1 1) (PointEx 2 2) RIGHT {} (Some (1, 1)) = Inr None"
    by (simp add: a_star_eval)
  have c: "count (empty_queue :: search_node SimplePriorityQueue) = 0"
    by (simp add: count_def empty_queue_def)
  from a_star_path_or_empty [of "PointEx 1 1" "PointEx 2 2" RIGHT "{}" "Some (1, 1)" empty_queue
         "(1, 1)" "{}"] s c
  show ?thesis by auto
qed

text \<open>
  Claim C7, as amended. If the goal is in the obstacle set and differs from the start,
  the planner returns the empty path. (With \<open>start = goal\<close> the start node is popped and
  recognised as the goal before any obstacle test: see the counterexample.)
\<close>

theorem a_star_goal_in_obstacles:
  assumes "goal \<in> obstacles" and "start \<noteq> goal"
  shows "a_star_with_orientation start goal orientation obstacles grid_size = Inr []"
proof -
  have "a_star_search start goal orientation obstacles grid_size = Inr None"
  proof (rule ccontr)
    assume "a_star_search start goal orientation obstacles grid_size \<noteq> Inr None"
    with a_star_search_result [of start goal orientation obstacles grid_size]
    obtain prio cost ori path where
      "node_ok (grid_bounds grid_size) obstacles start orientation (prio, cost, goal, ori, path)"
      by auto
    from node_ok_path [OF this] have "path \<noteq> []" "hd path = start" "last path = goal"
      "steps_ok (grid_bounds grid_size) obstacles start (tl path)" by auto
    moreover from this have "last (start # tl path) = goal"
      by (cases path) auto
    ultimately show False
      using steps_ok_last [of "grid_bounds grid_size" obstacles start "tl path"] assms by auto
  qed
  then show ?thesis by (simp add: a_star_with_orientation_def)
qed

theorem a_star_goal_in_obstacles_witness:
  "PointEx 2 2 \<in> {PointEx 2 2} \<and> PointEx 1 1 \<noteq> PointEx 2 2 \<and>
   a_star_with_orientation (PointEx 1 1) (PointEx 2 2) RIGHT {PointEx 2 2} None = Inr []"
  using a_star_goal_in_obstacles [of "PointEx 2 2" "{PointEx 2 2}" "PointEx 1 1" RIGHT None]
  by simp

text \<open>
  Claim C7 as stated fails when the start is the goal: the goal is an obstacle and the
  returned path is not empty.
\<close>

theorem a_star_goal_in_obstacles_counterexample:
  "PointEx 1 1 \<in> {PointEx 1 1} \<and>
   a_star_with_orientation (PointEx 1 1) (PointEx 1 1) RIGHT {PointEx 1 1} None = Inr [PointEx 1 1]"
  by (simp add: a_star_eval)

section \<open>Properties of the domain model and of the task ordering\<close>

text \<open>
  Claim C8. The pickup position of a constructed \<open>TaskEx\<close> is the cell to the left of the
  start position when the start position's x is above 10 and the cell to its right
  otherwise; so it is always 4-adjacent to the start position.
\<close>

theorem pickup_position_adjacent:
  "pickup_position (TaskEx_init task_record start_pos end_pos) =
     (if px (start_position (TaskEx_init task_record start_pos end_pos)) > 10
      then PointEx (px start_pos - 1) (py start_pos)
      else PointEx (px start_pos + 1) (py start_pos)) \<and>
   start_position (TaskEx_init task_record start_pos end_pos) = start_pos \<and>
   is_neighbour (pickup_position (TaskEx_init task_record start_pos end_pos))
                (start_position (TaskEx_init task_record start_pos end_pos))"
  by (simp add: TaskEx_init_def left_neighbour_def right_neighbour_def is_neighbour_def)

lemma group_tasks_lookup:
  "group_tasks ts is grouped sp =
     (if filter (\<lambda>j. start_point (ts ! j) = sp) is = [] then grouped sp
      else Some ((case grouped sp of None \<Rightarrow> [] | Some g \<Rightarrow> g) @
                 filter (\<lambda>j. start_point (ts ! j) = sp) is))"
proof (induction "is" arbitrary: grouped)
  case Nil
  then show ?case by simp
next
  case (Cons i "is")
  show ?case
    by (cases "grouped (start_point (ts ! i))") (auto simp: Cons.IH)
qed

lemma grouped_pending:
  assumes "i \<in> set (pending_tasks ts)"
  shows "group_tasks ts (pending_tasks ts) Map.empty (start_point (ts ! i)) = Some (start_point_group ts i)"
proof -
  have "i \<in> set (filter (\<lambda>j. start_point (ts ! j) = start_point (ts ! i)) (pending_tasks ts))"
    using assms by simp
  then have "filter (\<lambda>j. start_point (ts ! j) = start_point (ts ! i)) (pending_tasks ts) \<noteq> []"
    by (metis empty_iff list.set(1))
  then show ?thesis
    by (simp add: group_tasks_lookup start_point_group_def)
qed

lemma list_index_takeWhile:
  "v \<in> set g \<Longrightarrow> list_index g v = Inr (length (takeWhile (\<lambda>u. u \<noteq> v) g))"
  by (induction g) auto

lemma sort_key_of_pending:
  assumes "i \<in> set (pending_tasks ts)"
  shows "sort_key_of ts (group_tasks ts (pending_tasks ts) Map.empty) i = Inr (compound_key ts i)"
proof -
  have "i \<in> set (start_point_group ts i)"
    using assms by (simp add: start_point_group_def)
  then show ?thesis
    by (simp add: sort_key_of_def grouped_pending [OF assms] list_index_takeWhile compound_key_def
                  Let_def list_ex_iff middleY_def)
qed

lemma keyed_total:
  "(\<And>v. v \<in> set xs \<Longrightarrow> f v = Inr (k v)) \<Longrightarrow> keyed f xs = Inr (map (\<lambda>v. (k v, v)) xs)"
  by (induction xs) auto

lemma insort_key_decorated:
  "(\<And>p. p \<in> set ys \<Longrightarrow> fst p = k (snd p)) \<Longrightarrow>
   map snd (insort_key fst (k v, v) ys) = insort_key k v (map snd ys)"
  by (induction ys) auto

lemma set_insort_key': "set (insort_key f x xs) = insert x (set xs)"
  by (induction xs) auto

lemma sort_key_decorated:
  "map snd (sort_key fst (map (\<lambda>v. (k v, v)) xs)) = sort_key k xs \<and>
   (\<forall>p \<in> set (sort_key fst (map (\<lambda>v. (k v, v)) xs)). fst p = k (snd p))"
proof (induction xs)
  case Nil
  then show ?case by simp
next
  case (Cons a xs)
  let ?ys = "sort_key fst (map (\<lambda>v. (k v, v)) xs)"
  from Cons.IH have eq: "map snd ?ys = sort_key k xs"
    and dec: "\<And>p. p \<in> set ?ys \<Longrightarrow> fst p = k (snd p)" by auto
  have "map snd (insort_key fst (k a, a) ?ys) = insort_key k a (sort_key k xs)"
    using insort_key_decorated [of ?ys k a] dec eq by simp
  moreover have "\<forall>p \<in> set (insort_key fst (k a, a) ?ys). fst p = k (snd p)"
    using dec by (auto simp: set_insort_key')
  ultimately show ?case
    by (simp add: sort_key_def [symmetric])
qed

lemma get_sorted_pending_tasks_eq:
  "get_sorted_pending_tasks ts = Inr (sort_key (compound_key ts) (pending_tasks ts))"
proof -
  have "keyed (sort_key_of ts (group_tasks ts (pending_tasks ts) Map.empty)) (pending_tasks ts)
          = Inr (map (\<lambda>v. (compound_key ts v, v)) (pending_tasks ts))"
    by (rule keyed_total) (rule sort_key_of_pending)
  then show ?thesis
    using sort_key_decorated [of "compound_key ts" "pending_tasks ts"]
    by (simp add: get_sorted_pending_tasks_def Let_def)
qed

text \<open>
  Claim C3. \<open>get_sorted_pending_tasks\<close> never raises; its result holds exactly the pending
  tasks (those whose \<open>agv\<close> is \<open>None\<close>), is sorted ascending by the compound key, and tasks
  with equal keys keep the order they have in the task list.
\<close>

theorem sorted_pending_tasks_compound_order:
  "\<exists>result. get_sorted_pending_tasks ts = Inr result \<and>
     mset result = mset (pending_tasks ts) \<and>
     set (pending_tasks ts) = {i. i < length ts \<and> agv (ts ! i) = None} \<and>
     sorted (map (compound_key ts) result) \<and>
     (\<forall>k. filter (\<lambda>i. compound_key ts i = k) result
            = filter (\<lambda>i. compound_key ts i = k) (pending_tasks ts))"
proof -
  have "set (pending_tasks ts) = {i. i < length ts \<and> agv (ts ! i) = None}"
    by (auto simp: pending_tasks_def is_pending_def)
  then show ?thesis
    by (simp add: get_sorted_pending_tasks_eq sort_key_stable)
qed

theorem sorted_pending_tasks_compound_order_witness:
  "get_sorted_pending_tasks
     [TaskEx_init \<lparr>task_id = ''T1'', start_point = ''S1'', end_point = ''E1'', priority = NORMAL,
                   remaining_time = None\<rparr> (PointEx 5 2) (PointEx 8 2),
      TaskEx_init \<lparr>task_id = ''T2'', start_point = ''S2'', end_point = ''E1'', priority = HIGH,
                   remaining_time = None\<rparr> (PointEx 15 10) (PointEx 8 2),
      TaskEx_init \<lparr>task_id = ''T3'', start_point = ''S1'', end_point = ''E1'', priority = HIGH,
                   remaining_time = Some 7\<rparr> (PointEx 5 2) (PointEx 8 2)] = Inr [1, 0, 2] \<and>
   (\<exists>result. get_sorted_pending_tasks
     [TaskEx_init \<lparr>task_id = ''T1'', start_point = ''S1'', end_point = ''E1'', priority = NORMAL,
                   remaining_time = None\<rparr> (PointEx 5 2) (PointEx 8 2),
      TaskEx_init \<lparr>task_id = ''T2'', start_point = ''S2'', end_point = ''E1'', priority = HIGH,
                   remaining_time = None\<rparr> (PointEx 15 10) (PointEx 8 2),
      TaskEx_init \<lparr>task_id = ''T3'', start_point = ''S1'', end_point = ''E1'', priority = HIGH,
                   remaining_time = Some 7\<rparr> (PointEx 5 2) (PointEx 8 2)] = Inr result \<and>
     sorted (map (compound_key
     [TaskEx_init \<lparr>task_id = ''T1'', start_point = ''S1'', end_point = ''E1'', priority = NORMAL,
                   remaining_time = None\<rparr> (PointEx 5 2) (PointEx 8 2),
      TaskEx_init \<lparr>task_id = ''T2'', start_point = ''S2'', end_point = ''E1'', priority = HIGH,
                   remaining_time = None\<rparr> (PointEx 15 10) (PointEx 8 2),
      TaskEx_init \<lparr>task_id = ''T3'', start_point = ''S1'', end_point = ''E1'', priority = HIGH,
                   remaining_time = Some 7\<rparr> (PointEx 5 2) (PointEx 8 2)]) result))"
proof -
  have "get_sorted_pending_tasks
     [TaskEx_init \<lparr>task_id = ''T1'', start_point = ''S1'', end_point = ''E1'', priority = NORMAL,
                   remaining_time = None\<rparr> (PointEx 5 2) (PointEx 8 2),
      TaskEx_init \<lparr>task_id = ''T2'', start_point = ''S2'', end_point = ''E1'', priority = HIGH,
                   remaining_time = None\<rparr> (PointEx 15 10) (PointEx 8 2),
      TaskEx_init \<lparr>task_id = ''T3'', start_point = ''S1'', end_point = ''E1'', priority = HIGH,
                   remaining_time = Some 7\<rparr> (PointEx 5 2) (PointEx 8 2)] = Inr [1, 0, 2]"
    by (simp add: get_sorted_pending_tasks_def pending_tasks_def is_pending_def TaskEx_init_def
                  sort_key_of_def Let_def middleY_def right_neighbour_def left_neighbour_def upt_rec)
  then show ?thesis
    using sorted_pending_tasks_compound_order [of
     "[TaskEx_init \<lparr>task_id = ''T1'', start_point = ''S1'', end_point = ''E1'', priority = NORMAL,
                   remaining_time = None\<rparr> (PointEx 5 2) (PointEx 8 2),
      TaskEx_init \<lparr>task_id = ''T2'', start_point = ''S2'', end_point = ''E1'', priority = HIGH,
                   remaining_time = None\<rparr> (PointEx 15 10) (PointEx 8 2),
      TaskEx_init \<lparr>task_id = ''T3'', start_point = ''S1'', end_point = ''E1'', priority = HIGH,
                   remaining_time = Some 7\<rparr> (PointEx 5 2) (PointEx 8 2)]"]
    by auto
qed

text \<open>
  Claim C2, as amended. When exactly two tasks are pending and they share their start
  point, the first (in file order) Normal and the second High, the Normal task is ordered
  before the High task: the place of a task within its start point group is the first
  component of the key and decides before the priority.
\<close>

theorem same_start_point_file_order:
  assumes "pending_tasks ts = [i, j]"
    and "start_point (ts ! i) = start_point (ts ! j)"
    and "priority (ts ! i) = NORMAL" and "priority (ts ! j) = HIGH"
  shows "get_sorted_pending_tasks ts = Inr [i, j]"
proof -
  have "distinct (pending_tasks ts)"
    by (simp add: pending_tasks_def)
  then have ne: "i \<noteq> j" using assms(1) by simp
  have gi: "start_point_group ts i = [i, j]" and gj: "start_point_group ts j = [i, j]"
    using assms(1,2) by (simp_all add: start_point_group_def)
  have "fst (compound_key ts i) = 0" "fst (compound_key ts j) = 1"
    using ne by (simp_all add: compound_key_def gi gj)
  then have "compound_key ts i \<le> compound_key ts j"
    by (metis less_eq_prod_def less_numeral_extra(1) prod.collapse)
  then show ?thesis
    by (simp add: get_sorted_pending_tasks_eq assms(1))
qed

theorem same_start_point_file_order_witness:
  "pending_tasks
     [TaskEx_init \<lparr>task_id = ''T1'', start_point = ''S1'', end_point = ''E1'', priority = NORMAL,
                   remaining_time = None\<rparr> (PointEx 5 2) (PointEx 8 2),
      TaskEx_init \<lparr>task_id = ''T2'', start_point = ''S1'', end_point = ''E1'', priority = HIGH,
                   remaining_time = None\<rparr> (PointEx 5 2) (PointEx 8 2)] = [0, 1] \<and>
   get_sorted_pending_tasks
     [TaskEx_init \<lparr>task_id = ''T1'', start_point = ''S1'', end_point = ''E1'', priority = NORMAL,
                   remaining_time = None\<rparr> (PointEx 5 2) (PointEx 8 2),
      TaskEx_init \<lparr>task_id = ''T2'', start_point = ''S1'', end_point = ''E1'', priority = HIGH,
                   remaining_time = None\<rparr> (PointEx 5 2) (PointEx 8 2)] = Inr [0, 1]"
proof -
  have p: "pending_tasks
     [TaskEx_init \<lparr>task_id = ''T1'', start_point = ''S1'', end_point = ''E1'', priority = NORMAL,
                   remaining_time = None\<rparr> (PointEx 5 2) (PointEx 8 2),
      TaskEx_init \<lparr>task_id = ''T2'', start_point = ''S1'', end_point = ''E1'', priority = HIGH,
                   remaining_time = None\<rparr> (PointEx 5 2) (PointEx 8 2)] = [0, 1]"
    by (simp add: pending_tasks_def is_pending_def TaskEx_init_def upt_rec)
  from same_start_point_file_order [OF p] p show ?thesis
    by (simp add: TaskEx_init_def)
qed

text \<open>
  Claim C2 as stated fails: with a Normal task followed by a High task at the same start
  point, the sorted list has the Normal task (index 0) first, not the High task.
\<close>

theorem high_priority_second_counterexample:
  "pending_tasks
     [TaskEx_init \<lparr>task_id = ''T1'', start_point = ''S1'', end_point = ''E1'', priority = NORMAL,
                   remaining_time = None\<rparr> (PointEx 5 2) (PointEx 8 2),
      TaskEx_init \<lparr>task_id = ''T2'', start_point = ''S1'', end_point = ''E1'', priority = HIGH,
                   remaining_time = None\<rparr> (PointEx 5 2) (PointEx 8 2)] = [0, 1] \<and>
   get_sorted_pending_tasks
     [TaskEx_init \<lparr>task_id = ''T1'', start_point = ''S1'', end_point = ''E1'', priority = NORMAL,
                   remaining_time = None\<rparr> (PointEx 5 2) (PointEx 8 2),
      TaskEx_init \<lparr>task_id = ''T2'', start_point = ''S1'', end_point = ''E1'', priority = HIGH,
                   remaining_time = None\<rparr> (PointEx 5 2) (PointEx 8 2)] = Inr [0, 1] \<and>
   priority ([TaskEx_init \<lparr>task_id = ''T1'', start_point = ''S1'', end_point = ''E1'', priority = NORMAL,
                   remaining_time = None\<rparr> (PointEx 5 2) (PointEx 8 2),
      TaskEx_init \<lparr>task_id = ''T2'', start_point = ''S1'', end_point = ''E1'', priority = HIGH,
                   remaining_time = None\<rparr> (PointEx 5 2) (PointEx 8 2)] ! 0) = NORMAL \<and>
   priority ([TaskEx_init \<lparr>task_id = ''T1'', start_point = ''S1'', end_point = ''E1'', priority = NORMAL,
                   remaining_time = None\<rparr> (PointEx 5 2) (PointEx 8 2),
      TaskEx_init \<lparr>task_id = ''T2'', start_point = ''S1'', end_point = ''E1'', priority = HIGH,
                   remaining_time = None\<rparr> (PointEx 5 2) (PointEx 8 2)] ! 1) = HIGH"
  by (simp add: get_sorted_pending_tasks_def pending_tasks_def is_pending_def TaskEx_init_def
                sort_key_of_def Let_def middleY_def right_neighbour_def upt_rec)

section \<open>Properties of the scheduler\<close>

subsection \<open>The cross turn\<close>

lemma cross_turn_case_unique:
  "cross_turn_case a t ma mp mt d \<Longrightarrow> cross_turn_case a t ma' mp' mt' d' \<Longrightarrow> d = d'"
  by (cases d; cases d') (auto simp: cross_turn_case_def)

lemma cross_turn_head:
  "cross_turn ctx a t ((m, mp, mt) # rest) =
     (case item_turn a t (agvs ctx ! m) mp (tasks ctx ! mt) of
        Some d \<Rightarrow> Some d
      | None \<Rightarrow> cross_turn ctx a t rest)"
  by (cases "pitch a") (auto simp: item_turn_def cross_turn_case_def Let_def)

lemma item_turn_case:
  "cross_turn_case a t ma mp mt d \<Longrightarrow> item_turn a t ma mp mt = Some d"
  by (cases d) (auto simp: item_turn_def cross_turn_case_def)

lemma item_turn_Some:
  "item_turn a t ma mp mt = Some d \<Longrightarrow> cross_turn_case a t ma mp mt d"
  by (auto simp: item_turn_def split: if_splits)

lemma item_turn_cong:
  "pitch ma' = pitch ma \<Longrightarrow> position ma' = position ma \<Longrightarrow>
   item_turn a t ma' mp mt = item_turn a t ma mp mt"
  by (simp add: item_turn_def cross_turn_case_def)

lemma cross_turn_mandated:
  "(m, mp, mt) \<in> set moved \<Longrightarrow> cross_turn_case a t (agvs ctx ! m) mp (tasks ctx ! mt) d \<Longrightarrow>
   cross_turn ctx a t moved = Some d"
proof (induction moved)
  case Nil
  then show ?case by simp
next
  case (Cons item moved)
  obtain m' mp' mt' where item: "item = (m', mp', mt')" by (cases item) auto
  show ?case
  proof (cases "item_turn a t (agvs ctx ! m') mp' (tasks ctx ! mt')")
    case None
    then have "(m', mp', mt') \<noteq> (m, mp, mt)"
      using item_turn_case [OF Cons.prems(2)] by auto
    then have "(m, mp, mt) \<in> set moved" using Cons.prems(1) item by auto
    from Cons.IH [OF this Cons.prems(2)] None show ?thesis
      by (simp add: item cross_turn_head del: cross_turn.simps)
  next
    case (Some d')
    from item_turn_Some [OF this] Cons.prems(2) have "d' = d"
      by (rule cross_turn_case_unique)
    then show ?thesis using Some
      by (simp add: item cross_turn_head del: cross_turn.simps)
  qed
qed

lemma cross_turn_set_agv:
  "pitch a' = pitch (agvs ctx ! i) \<Longrightarrow> position a' = position (agvs ctx ! i) \<Longrightarrow>
   cross_turn (set_agv ctx i a') a t moved = cross_turn ctx a t moved"
proof (induction moved)
  case Nil
  then show ?case by simp
next
  case (Cons item moved)
  obtain m mp mt where item: "item = (m, mp, mt)" by (cases item) auto
  have "agvs (set_agv ctx i a') ! m = (if m = i \<and> i < length (agvs ctx) then a' else agvs ctx ! m)"
    by (cases "i < length (agvs ctx)") (auto simp: set_agv_def nth_list_update not_less list_update_beyond)
  then have p: "pitch (agvs (set_agv ctx i a') ! m) = pitch (agvs ctx ! m)"
    "position (agvs (set_agv ctx i a') ! m) = position (agvs ctx ! m)"
    using Cons.prems by auto
  have t: "tasks (set_agv ctx i a') = tasks ctx" by (simp add: set_agv_def)
  show ?case
    by (simp only: item cross_turn_head t item_turn_cong [OF p] Cons.IH [OF Cons.prems])
qed

lemmas scheduler_eval = get_obstacles_def neighbours_def left_neighbour_def
  right_neighbour_def up_neighbour_def down_neighbour_def free_neighbours_def is_neighbour_def
  build_obstacles_def calculate_path_to_end_point_def calculate_path_to_pickup_position_def
  TaskEx_init_def upt_rec Let_def

subsection \<open>Assignment\<close>

lemma calculate_path_timing_Nil: "calculate_path_timing [] d = Inr []"
  by (simp add: calculate_path_timing_def)

lemma assignment_options_empty:
  "(\<And>i. i \<in> set idle \<Longrightarrow> calculate_path_to_pickup_position ctx i task (get_obstacles ctx i) = Inr []) \<Longrightarrow>
   assignment_options ctx task idle = Inr (map (\<lambda>i. (i, [])) idle)"
  by (induction idle) (simp_all add: calculate_path_timing_Nil)

lemma sort_key_all_equal:
  assumes "\<And>x. x \<in> set xs \<Longrightarrow> f x = k"
  shows "sort_key f xs = xs"
proof -
  have "filter (\<lambda>y. f y = k) (sort_key f xs) = sort_key f xs"
    using assms by (intro filter_True) simp
  moreover have "filter (\<lambda>y. f y = k) xs = xs"
    using assms by (intro filter_True) simp
  ultimately show ?thesis
    using sort_key_stable [of f k xs] by simp
qed

lemma map_of_dict_set: "map_of (dict_set d k v) k = Some v"
  by (induction d k v rule: dict_set.induct) auto

subsection \<open>Preservation of the invariant by the operations on one AGV\<close>

lemma ctx_inv_agv: "ctx_inv D n m F ctx \<Longrightarrow> i < n \<Longrightarrow> agv_ok m (agvs ctx ! i)"
  by (simp add: ctx_inv_def list_all_length)

lemma ctx_inv_set_agv_same:
  assumes "ctx_inv D n m F ctx" and "i < n" and "position a = position (agvs ctx ! i)" and "agv_ok m a"
  shows "ctx_inv D n m F (set_agv ctx i a)"
proof -
  have "map position ((agvs ctx)[i := a]) = map position (agvs ctx)"
    using assms(1,2,3) by (simp add: map_update ctx_inv_def list_update_same_conv)
  moreover have "list_all (agv_ok m) ((agvs ctx)[i := a])"
    using assms(1,4) set_update_subset_insert [of "agvs ctx" i a]
    by (auto simp: ctx_inv_def list_all_iff)
  ultimately show ?thesis
    using assms(1) by (simp add: ctx_inv_def set_agv_def)
qed

lemma ctx_inv_set_agv_moved:
  assumes "ctx_inv D n m F ctx" and "i < n" and "position a \<notin> set (map position (agvs ctx))"
    and "agv_ok m a"
  shows "ctx_inv D n m F (set_agv ctx i a)"
proof -
  have "D \<longrightarrow> distinct ((map position (agvs ctx))[i := position a])"
    using assms(1,3) by (auto simp: ctx_inv_def intro!: distinct_list_update)
  then have "D \<longrightarrow> distinct (map position ((agvs ctx)[i := a]))"
    by (simp add: map_update)
  moreover have "list_all (agv_ok m) ((agvs ctx)[i := a])"
    using assms(1,4) set_update_subset_insert [of "agvs ctx" i a]
    by (auto simp: ctx_inv_def list_all_iff)
  ultimately show ?thesis
    using assms(1) by (simp add: ctx_inv_def set_agv_def)
qed

lemma ctx_inv_recorder_add: "ctx_inv D n m F ctx \<Longrightarrow> ctx_inv D n m F (recorder_add ctx t)"
  by (simp add: ctx_inv_def recorder_add_def)

lemma end_position_update:
  assumes "list_all (\<lambda>t. end_position t \<in> set F) ts" and "end_position (f (ts ! j)) = end_position (ts ! j)"
  shows "list_all (\<lambda>t. end_position t \<in> set F) (ts[j := f (ts ! j)])"
proof (cases "j < length ts")
  case True
  then have "end_position (ts ! j) \<in> set F"
    using assms(1) by (simp add: list_all_length)
  then show ?thesis
    using assms set_update_subset_insert [of ts j "f (ts ! j)"]
    by (auto simp: list_all_iff)
next
  case False
  then show ?thesis using assms(1) by (simp add: list_update_beyond not_less)
qed

lemma ctx_inv_unload:
  assumes "ctx_inv D n m F ctx" and "i < n"
  shows "ctx_inv D n m F (unload ctx i t)"
proof -
  let ?a = "(agvs ctx ! i)\<lparr>path_time_points := [], is_loaded := False, loaded_task := None\<rparr>"
  let ?ts = "case loaded_task (agvs ctx ! i) of
               None \<Rightarrow> tasks ctx
             | Some j \<Rightarrow> (tasks ctx)[j := task_unload (tasks ctx ! j) t]"
  have ok: "agv_ok m ?a" by (simp add: agv_ok_def path_chain_def)
  have "ctx_inv D n m F (set_agv ctx i ?a)"
    by (rule ctx_inv_set_agv_same [OF assms]) (simp_all add: ok)
  moreover have "list_all (\<lambda>t. end_position t \<in> set F) ?ts" "length ?ts = m"
    using assms(1) end_position_update [of F "tasks ctx" "\<lambda>x. task_unload x t"]
    by (auto simp: ctx_inv_def task_unload_def split: option.splits)
  moreover have "unload ctx i t = (set_agv ctx i ?a)\<lparr>tasks := ?ts\<rparr>"
    by (simp add: unload_def set_agv_def Let_def)
  ultimately show ?thesis by (simp add: ctx_inv_def)
qed

lemma ctx_inv_load:
  assumes "ctx_inv D n m F ctx" and "i < n" and "j < m" and "\<not> is_loaded (agvs ctx ! i)"
  shows "ctx_inv D n m F (load ctx i j t)"
proof -
  let ?a = "(agvs ctx ! i)\<lparr>is_loaded := True, loaded_task := Some j\<rparr>"
  let ?ts = "(tasks ctx)[j := load_by (tasks ctx ! j) i t]"
  have "agv_ok m (agvs ctx ! i)" by (rule ctx_inv_agv [OF assms(1,2)])
  then have ok: "agv_ok m ?a" using assms(3) by (simp add: agv_ok_def)
  have "ctx_inv D n m F (set_agv ctx i ?a)"
    by (rule ctx_inv_set_agv_same [OF assms(1,2)]) (simp_all add: ok)
  moreover have "list_all (\<lambda>t. end_position t \<in> set F) ?ts" "length ?ts = m"
    using assms(1) end_position_update [of F "tasks ctx" "\<lambda>x. load_by x i t"]
    by (auto simp: ctx_inv_def load_by_def)
  moreover have "load ctx i j t = (set_agv ctx i ?a)\<lparr>tasks := ?ts\<rparr>"
    by (simp add: load_def set_agv_def)
  ultimately show ?thesis by (simp add: ctx_inv_def)
qed

subsection \<open>Paths and the operations on them\<close>

lemma is_neighbour_in_neighbours: "is_neighbour p q \<longleftrightarrow> q \<in> set (neighbours p)"
  by (cases p; cases q)
     (auto simp: is_neighbour_def neighbours_def left_neighbour_def right_neighbour_def
                 up_neighbour_def down_neighbour_def)

lemma steps_ok_chain: "steps_ok gsize obstacles p qs \<Longrightarrow> chain_ok p qs"
  by (induction qs arbitrary: p) auto

lemma path_chain_Nil: "path_chain p []"
  by (simp add: path_chain_def)

lemma path_chain_second:
  "path_chain p ptps \<Longrightarrow> 1 < length ptps \<Longrightarrow>
   is_neighbour p (ptp_position (ptps ! 1)) \<and>
   path_chain (ptp_position (ptps ! 1)) (tl ptps)"
  by (cases ptps; cases "tl ptps") (auto simp: path_chain_def)

lemma path_chain_map:
  "path_chain p ptps \<Longrightarrow> path_chain p (map (\<lambda>x. PathTimePoint (ptp_position x) (g x)) ptps)"
  by (cases ptps) (auto simp: path_chain_def comp_def)

lemma path_chain_hd_map:
  "path_chain p ptps \<Longrightarrow> ptps \<noteq> [] \<Longrightarrow>
   path_chain p (hd ptps # map (\<lambda>x. PathTimePoint (ptp_position x) (g x)) (tl ptps))"
  by (cases ptps) (auto simp: path_chain_def comp_def)

lemma should_turn_ok:
  "path_chain (position a) (path_time_points a) \<Longrightarrow> \<exists>b. should_turn a = Inr b"
  using path_chain_second [of "position a" "path_time_points a"] is_neighbour_pitch
  by (fastforce simp: should_turn_def)

lemma should_move_ok:
  "path_chain (position a) (path_time_points a) \<Longrightarrow> \<exists>b. should_move a = Inr b"
  using path_chain_second [of "position a" "path_time_points a"] is_neighbour_pitch
  by (fastforce simp: should_move_def)

lemma turn_None_ok:
  assumes "agv_ok m a"
  shows "\<exists>a'. turn a None = Inr a' \<and> position a' = position a \<and> agv_ok m a'"
proof (cases "1 < length (path_time_points a)")
  case True
  from assms have pc: "path_chain (position a) (path_time_points a)" by (simp add: agv_ok_def)
  from path_chain_second [OF pc True] obtain d where
    d: "get_pitch_to_neighbour (position a) (ptp_position (path_time_points a ! 1)) = Inr d"
    using is_neighbour_pitch by blast
  have "path_time_points a \<noteq> []" using True by auto
  from path_chain_hd_map [OF pc this, of "\<lambda>x. time_cost x - 1"] assms
  show ?thesis using True d by (simp add: turn_def agv_ok_def)
next
  case False
  then show ?thesis using assms by (simp add: turn_def)
qed

lemma move_ok:
  assumes "agv_ok m a" and "1 < length (path_time_points a)"
  shows "position (move a) = ptp_position (path_time_points a ! 1) \<and> agv_ok m (move a)"
proof -
  from assms have pc: "path_chain (position a) (path_time_points a)" by (simp add: agv_ok_def)
  from path_chain_second [OF pc assms(2)]
  have "path_chain (ptp_position (path_time_points a ! 1)) (tl (path_time_points a))" by simp
  from path_chain_map [OF this, of "\<lambda>x. time_cost x - 1"] assms
  show ?thesis by (simp add: move_def agv_ok_def map_tl)
qed

lemma timing_loop_positions:
  "timing_loop p qs t d = Inr r \<Longrightarrow> map ptp_position r = qs"
  by (induction qs arbitrary: p t d r) (auto simp: Let_def split: sum.splits)

lemma calculate_path_timing_positions:
  "calculate_path_timing path d = Inr ptps \<Longrightarrow> map ptp_position ptps = path"
  by (auto simp: calculate_path_timing_def split: list.splits sum.splits dest: timing_loop_positions)

lemma a_star_total:
  "\<exists>path. a_star_with_orientation start goal ori obstacles grid_size = Inr path \<and>
     (path = [] \<or> (hd path = start \<and> steps_ok (grid_bounds grid_size) obstacles start (tl path)))"
  using a_star_search_result [of start goal ori obstacles grid_size]
  by (auto simp: a_star_with_orientation_def dest: node_ok_path)

lemma planned_timing:
  assumes "a_star_with_orientation start goal ori obstacles grid_size = Inr path"
  shows "\<exists>ptps. calculate_path_timing path d = Inr ptps \<and> map ptp_position ptps = path \<and>
           path_chain start ptps \<and>
           (1 < length ptps \<longrightarrow> is_neighbour start (ptp_position (ptps ! 1)) \<and>
                                 ptp_position (ptps ! 1) \<notin> obstacles)"
proof (cases path)
  case Nil
  then show ?thesis by (simp add: calculate_path_timing_def path_chain_def)
next
  case (Cons p0 rest)
  from a_star_total [of start goal ori obstacles grid_size] assms Cons
  have p0: "p0 = start" and ok: "steps_ok (grid_bounds grid_size) obstacles start rest" by auto
  from timing_loop_steps [OF ok, of 0 d] obtain r where
    r: "timing_loop start rest 0 d = Inr r" "map ptp_position r = rest" by blast
  have "1 < length (PathTimePoint start 0 # r) \<longrightarrow>
          is_neighbour start (ptp_position ((PathTimePoint start 0 # r) ! 1)) \<and>
          ptp_position ((PathTimePoint start 0 # r) ! 1) \<notin> obstacles"
    using ok r(2) by (cases r; cases rest) auto
  moreover have "path_chain start (PathTimePoint start 0 # r)"
    using steps_ok_chain [OF ok] r(2) by (simp add: path_chain_def)
  ultimately show ?thesis
    using r by (simp add: calculate_path_timing_def Cons p0)
qed

subsection \<open>The batched move keeps the invariant and does not raise\<close>

lemma set_cross_lock_obstacles:
  "set obstacles \<subseteq> set (cross_lock_obstacles ctx i ks obstacles)"
proof (induction ks arbitrary: obstacles)
  case Nil
  then show ?case by simp
next
  case (Cons k ks)
  show ?case
    using Cons.IH [of obstacles] Cons.IH [of "obstacles @ [free_neighbours ctx k ! 0]"]
    by (auto simp: Let_def)
qed

lemma occupied_neighbour_is_obstacle:
  assumes "is_neighbour (position (agvs ctx ! i)) q" and "q \<in> set (map position (agvs ctx))"
  shows "q \<in> set (get_obstacles ctx i)"
proof -
  have "q \<in> set (filter (\<lambda>pos. pos \<in> set (map position (agvs ctx)))
                      (neighbours (position (agvs ctx ! i))))"
    using assms by (simp add: is_neighbour_in_neighbours)
  then show ?thesis
    using set_cross_lock_obstacles by (fastforce simp: get_obstacles_def Let_def)
qed

lemma planned_step_free:
  assumes "a_star_with_orientation (position (agvs ctx ! i)) goal ori obstacles grid_size = Inr path"
    and "set (get_obstacles ctx i) \<subseteq> obstacles"
  shows "\<exists>ptps. calculate_path_timing path d = Inr ptps \<and>
           path_chain (position (agvs ctx ! i)) ptps \<and>
           (1 < length ptps \<longrightarrow> ptp_position (ptps ! 1) \<notin> set (map position (agvs ctx)))"
proof -
  from planned_timing [OF assms(1), of d] obtain ptps where
    p: "calculate_path_timing path d = Inr ptps" "path_chain (position (agvs ctx ! i)) ptps"
       "1 < length ptps \<longrightarrow> is_neighbour (position (agvs ctx ! i)) (ptp_position (ptps ! 1)) \<and>
                              ptp_position (ptps ! 1) \<notin> obstacles"
    by blast
  have "1 < length ptps \<longrightarrow> ptp_position (ptps ! 1) \<notin> set (map position (agvs ctx))"
    using p(3) assms(2) occupied_neighbour_is_obstacle [of ctx i "ptp_position (ptps ! 1)"]
    by blast
  with p show ?thesis by blast
qed

lemma end_point_obstacles:
  "goal \<in> set F \<Longrightarrow> set additional \<subseteq> set (remove1 goal (F @ additional))"
  by (simp add: remove1_append)

lemma path_to_pickup_position_ok:
  "\<exists>path. calculate_path_to_pickup_position ctx i j (get_obstacles ctx i) = Inr path \<and>
     (\<exists>ptps. calculate_path_timing path d = Inr ptps \<and>
        path_chain (position (agvs ctx ! i)) ptps \<and>
        (1 < length ptps \<longrightarrow> ptp_position (ptps ! 1) \<notin> set (map position (agvs ctx))))"
proof -
  let ?O = "set (build_obstacles ctx (get_obstacles ctx i))"
  obtain path where
    path: "a_star_with_orientation (position (agvs ctx ! i)) (pickup_position (tasks ctx ! j))
             (pitch (agvs ctx ! i)) ?O None = Inr path"
    using a_star_total by blast
  have "set (get_obstacles ctx i) \<subseteq> ?O" by (simp add: build_obstacles_def)
  from planned_step_free [OF path this, of d] path show ?thesis
    by (simp add: calculate_path_to_pickup_position_def Let_def)
qed

lemma path_to_end_point_ok:
  assumes "end_position (tasks ctx ! j) \<in> set (fixed_map_obstacles ctx)"
  shows "\<exists>path. calculate_path_to_end_point ctx i j (get_obstacles ctx i) = Inr path \<and>
     (\<exists>ptps. calculate_path_timing path d = Inr ptps \<and>
        path_chain (position (agvs ctx ! i)) ptps \<and>
        (1 < length ptps \<longrightarrow> ptp_position (ptps ! 1) \<notin> set (map position (agvs ctx))))"
proof -
  let ?goal = "end_position (tasks ctx ! j)"
  let ?O = "set (remove1 ?goal (build_obstacles ctx (get_obstacles ctx i)))"
  obtain path where
    path: "a_star_with_orientation (position (agvs ctx ! i)) ?goal (pitch (agvs ctx ! i)) ?O None
             = Inr path"
    using a_star_total by blast
  have "set (get_obstacles ctx i) \<subseteq> ?O"
    using end_point_obstacles [OF assms] by (simp add: build_obstacles_def)
  from planned_step_free [OF path this, of d] path assms show ?thesis
    by (simp add: calculate_path_to_end_point_def Let_def build_obstacles_def)
qed

lemma batch_move_agv_planned:
  assumes "ctx_inv D n m F ctx" and "i < n" and "agv_ok m (agvs ctx ! i)"
    and "calculate_path_timing path (pitch (agvs ctx ! i)) = Inr ptps"
    and "path_chain (position (agvs ctx ! i)) ptps"
    and "1 < length ptps \<longrightarrow> ptp_position (ptps ! 1) \<notin> set (map position (agvs ctx))"
    and "i \<notin> set handled" and "is_loaded (agvs ctx ! i) = loaded"
    and "current_task loaded temp_assignments ctx i = Inr j"
    and "(if loaded then calculate_path_to_end_point ctx i j (get_obstacles ctx i)
          else calculate_path_to_pickup_position ctx i j (get_obstacles ctx i)) = Inr path"
  shows "\<exists>ctx' handled' moved' assigned'.
           batch_move_agv loaded temp_assignments i (ctx, handled, moved, assigned)
             = Inr (ctx', handled', moved', assigned') \<and> ctx_inv D n m F ctx'"
proof -
  let ?a = "(agvs ctx ! i)\<lparr>path_time_points := ptps\<rparr>"
  let ?ctx1 = "set_agv ctx i ?a"
  have ok: "agv_ok m ?a" using assms(3,5) by (simp add: agv_ok_def)
  have inv1: "ctx_inv D n m F ?ctx1"
    by (rule ctx_inv_set_agv_same [OF assms(1,2)]) (simp_all add: ok)
  have pos1: "map position (agvs ?ctx1) = map position (agvs ctx)"
    using assms(1,2) by (simp add: set_agv_def map_update ctx_inv_def list_update_same_conv)
  show ?thesis
  proof (cases "length ptps < 2")
    case True
    then show ?thesis
      using assms(4,7-10) inv1 by (auto simp: batch_move_agv_def Let_def)
  next
    case False
    then have len: "1 < length ptps" by simp
    from path_chain_second [OF assms(5) len] obtain e where
      e: "get_pitch_to_neighbour (position ?a) (ptp_position (ptps ! 1)) = Inr e"
      using is_neighbour_pitch by fastforce
    show ?thesis
    proof (cases "e \<noteq> pitch ?a")
      case True
      then show ?thesis
        using assms(4,7-10) inv1 False e by (auto simp: batch_move_agv_def Let_def)
    next
      case same: False
      show ?thesis
      proof (cases "cross_turn ?ctx1 ?a (tasks ?ctx1 ! j) moved")
        case None
        have "position (move ?a) \<notin> set (map position (agvs ?ctx1))" "agv_ok m (move ?a)"
          using move_ok [OF ok] len assms(6) pos1 by simp_all
        then have "ctx_inv D n m F (set_agv ?ctx1 i (move ?a))"
          using ctx_inv_set_agv_moved [OF inv1 assms(2)] by blast
        then show ?thesis
          using assms(4,7-10) False e same None by (auto simp: batch_move_agv_def Let_def)
      next
        case (Some d)
        have "agv_ok m (?a\<lparr>pitch := d, path_time_points := []\<rparr>)"
          using ok by (simp add: agv_ok_def path_chain_def)
        then have "ctx_inv D n m F (set_agv ?ctx1 i (?a\<lparr>pitch := d, path_time_points := []\<rparr>))"
          using assms(2) assms(1)
          by (intro ctx_inv_set_agv_same [OF inv1]) (simp_all add: set_agv_def ctx_inv_def)
        then show ?thesis
          using assms(4,7-10) False e same Some by (auto simp: batch_move_agv_def Let_def turn_def)
      qed
    qed
  qed
qed

lemma batch_move_agv_inv:
  assumes "ctx_inv D n m F ctx" and "i < n"
    and "loaded \<or> (\<exists>assignments. temp_assignments = Some assignments \<and> map_of assignments i \<noteq> None)"
  shows "\<exists>ctx' handled' moved' assigned'.
           batch_move_agv loaded temp_assignments i (ctx, handled, moved, assigned)
             = Inr (ctx', handled', moved', assigned') \<and> ctx_inv D n m F ctx'"
proof (cases "i \<in> set handled \<or> is_loaded (agvs ctx ! i) \<noteq> loaded")
  case True
  then show ?thesis using assms(1) by (auto simp: batch_move_agv_def)
next
  case False
  then have nh: "i \<notin> set handled" and il: "is_loaded (agvs ctx ! i) = loaded" by auto
  have ok: "agv_ok m (agvs ctx ! i)" by (rule ctx_inv_agv [OF assms(1,2)])
  show ?thesis
  proof (cases loaded)
    case True
    with il ok obtain j where j: "loaded_task (agvs ctx ! i) = Some j" "j < m"
      by (auto simp: agv_ok_def split: option.splits)
    then have ct: "current_task loaded temp_assignments ctx i = Inr j"
      using True by (simp add: current_task_def)
    have "end_position (tasks ctx ! j) \<in> set (fixed_map_obstacles ctx)"
      using assms(1) j(2) by (simp add: ctx_inv_def list_all_length)
    from path_to_end_point_ok [OF this, of i "pitch (agvs ctx ! i)"] obtain path ptps where
      "calculate_path_to_end_point ctx i j (get_obstacles ctx i) = Inr path"
      "calculate_path_timing path (pitch (agvs ctx ! i)) = Inr ptps"
      "path_chain (position (agvs ctx ! i)) ptps"
      "1 < length ptps \<longrightarrow> ptp_position (ptps ! 1) \<notin> set (map position (agvs ctx))"
      by blast
    with True show ?thesis
      by (intro batch_move_agv_planned [OF assms(1,2) ok _ _ _ nh il ct]) simp_all
  next
    case False
    with assms(3) obtain assignments j where
      "temp_assignments = Some assignments" "map_of assignments i = Some j" by auto
    then have ct: "current_task loaded temp_assignments ctx i = Inr j"
      using False by (simp add: current_task_def)
    from path_to_pickup_position_ok [of ctx i j "pitch (agvs ctx ! i)"] obtain path ptps where
      "calculate_path_to_pickup_position ctx i j (get_obstacles ctx i) = Inr path"
      "calculate_path_timing path (pitch (agvs ctx ! i)) = Inr ptps"
      "path_chain (position (agvs ctx ! i)) ptps"
      "1 < length ptps \<longrightarrow> ptp_position (ptps ! 1) \<notin> set (map position (agvs ctx))"
      by blast
    with False show ?thesis
      by (intro batch_move_agv_planned [OF assms(1,2) ok _ _ _ nh il ct]) simp_all
  qed
qed

lemma batch_pass_inv:
  assumes "\<And>i. i \<in> set cs \<Longrightarrow> i < n"
    and "loaded \<or> (\<exists>assignments. temp_assignments = Some assignments \<and>
                     (\<forall>i \<in> set cs. map_of assignments i \<noteq> None))"
  shows "ctx_inv D n m F ctx \<Longrightarrow>
         \<exists>ctx' handled' moved' assigned'.
           batch_pass loaded temp_assignments cs (ctx, handled, moved, assigned)
             = Inr (ctx', handled', moved', assigned') \<and> ctx_inv D n m F ctx'"
  using assms
proof (induction cs arbitrary: ctx handled moved assigned)
  case Nil
  then show ?case by simp
next
  case (Cons c cs)
  have "c < n" using Cons.prems(2) by simp
  moreover have "loaded \<or> (\<exists>assignments. temp_assignments = Some assignments \<and>
                    map_of assignments c \<noteq> None)"
    using Cons.prems(3) by auto
  ultimately obtain ctx1 handled1 moved1 assigned1 where
    step: "batch_move_agv loaded temp_assignments c (ctx, handled, moved, assigned)
             = Inr (ctx1, handled1, moved1, assigned1)" and inv1: "ctx_inv D n m F ctx1"
    using batch_move_agv_inv [OF Cons.prems(1)] by blast
  have "\<And>i. i \<in> set cs \<Longrightarrow> i < n" using Cons.prems(2) by simp
  moreover have "loaded \<or> (\<exists>assignments. temp_assignments = Some assignments \<and>
                     (\<forall>i \<in> set cs. map_of assignments i \<noteq> None))"
    using Cons.prems(3) by auto
  ultimately show ?case
    using Cons.IH [OF inv1, of handled1 moved1 assigned1] step by simp
qed

lemma batch_loop_inv:
  assumes "\<And>i. i \<in> set cs \<Longrightarrow> i < n"
    and "loaded \<or> (\<exists>assignments. temp_assignments = Some assignments \<and>
                     (\<forall>i \<in> set cs. map_of assignments i \<noteq> None))"
  shows "ctx_inv D n m F ctx \<Longrightarrow>
         \<exists>ctx' handled'. batch_loop loaded temp_assignments cs ctx handled moved
                           = Inr (ctx', handled') \<and> ctx_inv D n m F ctx'"
  using assms
proof (induction loaded temp_assignments cs ctx handled moved rule: batch_loop.induct)
  case (1 loaded temp_assignments cs ctx handled moved)
  from batch_pass_inv [OF "1.prems"(2,3) "1.prems"(1), of handled moved False]
  obtain ctx1 handled1 moved1 assigned1 where
    pass: "batch_pass loaded temp_assignments cs (ctx, handled, moved, False)
             = Inr (ctx1, handled1, moved1, assigned1)" and inv1: "ctx_inv D n m F ctx1"
    by blast
  show ?case
  proof (cases assigned1)
    case True
    from "1.IH" [OF pass refl refl refl _ inv1 "1.prems"(2,3)] True
    show ?thesis
      using pass by (subst batch_loop.simps) simp
  next
    case False
    then show ?thesis
      using pass inv1 by (subst batch_loop.simps) simp
  qed
qed

subsection \<open>The phases keep the invariant and do not raise\<close>

lemma batch_move_agvs_inv:
  assumes "ctx_inv D n m F ctx" and "\<And>i. i \<in> set cs \<Longrightarrow> i < n"
    and "loaded \<or> (\<exists>assignments. temp_assignments = Some assignments \<and>
                     (\<forall>i \<in> set cs. map_of assignments i \<noteq> None))"
  shows "\<exists>ctx' handled'. batch_move_agvs cs handled loaded temp_assignments ctx
                           = Inr (ctx', handled') \<and> ctx_inv D n m F ctx'"
  unfolding batch_move_agvs_def
  by (rule batch_loop_inv [OF assms(2,3,1)])

lemma unload_phase_inv:
  "ctx_inv D n m F ctx \<Longrightarrow> (\<And>i. i \<in> set ids \<Longrightarrow> i < n) \<Longrightarrow>
   ctx_inv D n m F (fst (unload_phase t ids ctx handled))"
proof (induction ids arbitrary: ctx handled)
  case Nil
  then show ?case by simp
next
  case (Cons i ids)
  have "i < n" using Cons.prems(2) by simp
  from ctx_inv_unload [OF Cons.prems(1) this, of t] Cons.IH Cons.prems
  show ?case by simp
qed

lemma load_phase_inv:
  "ctx_inv D n m F ctx \<Longrightarrow> (\<And>i. i \<in> set ids \<Longrightarrow> i < n) \<Longrightarrow>
   (\<And>j. j \<in> set pending \<Longrightarrow> j < m) \<Longrightarrow>
   ctx_inv D n m F (fst (load_phase t pending ids ctx handled))"
proof (induction ids arbitrary: ctx handled)
  case Nil
  then show ?case by simp
next
  case (Cons i ids)
  have i: "i < n" using Cons.prems(2) by simp
  show ?case
  proof (cases "i \<in> set handled \<or> is_loaded (agvs ctx ! i)")
    case True
    then show ?thesis using Cons.IH [OF Cons.prems(1)] Cons.prems(2,3) by simp
  next
    case False
    show ?thesis
    proof (cases "find (\<lambda>j. pickup_position (tasks ctx ! j) = position (agvs ctx ! i)) pending")
      case None
      then show ?thesis using False Cons.IH [OF Cons.prems(1)] Cons.prems(2,3) by simp
    next
      case (Some j)
      then have "j \<in> set pending" by (auto simp: find_Some_iff)
      then have "j < m" using Cons.prems(3) by simp
      from ctx_inv_load [OF Cons.prems(1) i this, of t] False
      have "ctx_inv D n m F (load ctx i j t)" by simp
      from Cons.IH [OF this] Cons.prems(2,3) False Some show ?thesis by simp
    qed
  qed
qed

lemma sorted_pending_tasks_range:
  "\<exists>pending. get_sorted_pending_tasks ts = Inr pending \<and> (\<forall>j \<in> set pending. j < length ts)"
  by (auto simp: get_sorted_pending_tasks_eq pending_tasks_def)

lemma turn_loaded_inv:
  "ctx_inv D n m F ctx \<Longrightarrow> (\<And>i. i \<in> set ids \<Longrightarrow> i < n) \<Longrightarrow>
   \<exists>ctx' handled'. turn_loaded ids ctx handled = Inr (ctx', handled') \<and> ctx_inv D n m F ctx'"
proof (induction ids arbitrary: ctx handled)
  case Nil
  then show ?case by simp
next
  case (Cons i ids)
  have i: "i < n" using Cons.prems(2) by simp
  have ok: "agv_ok m (agvs ctx ! i)" by (rule ctx_inv_agv [OF Cons.prems(1) i])
  then obtain b where b: "should_turn (agvs ctx ! i) = Inr b"
    using should_turn_ok by (auto simp: agv_ok_def)
  from turn_None_ok [OF ok] obtain a' where
    a': "turn (agvs ctx ! i) None = Inr a'" "position a' = position (agvs ctx ! i)" "agv_ok m a'"
    by blast
  have "ctx_inv D n m F (set_agv ctx i a')"
    by (rule ctx_inv_set_agv_same [OF Cons.prems(1) i a'(2,3)])
  from Cons.IH [OF this] Cons.IH [OF Cons.prems(1)] Cons.prems(2) b a'(1)
  show ?case by simp
qed

lemma assignment_options_ok:
  "\<exists>options. assignment_options ctx task ids = Inr options \<and>
     (\<forall>x \<in> set options. fst x \<in> set ids \<and> path_chain (position (agvs ctx ! fst x)) (snd x))"
proof (induction ids)
  case Nil
  then show ?case by simp
next
  case (Cons i ids)
  from path_to_pickup_position_ok [of ctx i task "pitch (agvs ctx ! i)"] obtain path ptps where
    "calculate_path_to_pickup_position ctx i task (get_obstacles ctx i) = Inr path"
    "calculate_path_timing path (pitch (agvs ctx ! i)) = Inr ptps"
    "path_chain (position (agvs ctx ! i)) ptps"
    by blast
  with Cons.IH show ?case by (auto simp: Let_def)
qed

lemma set_sort_key_hd:
  "sort_key f xs = y # ys \<Longrightarrow> y \<in> set xs"
  by (metis list.set_intros(1) set_sort)

lemma dict_set_keys: "fst ` set (dict_set d k v) = insert k (fst ` set d)"
  by (induction d k v rule: dict_set.induct) auto

lemma assign_task_inv:
  assumes "assign_inv D n m F st"
  shows "\<exists>st'. assign_task task st = Inr st' \<and> assign_inv D n m F st'"
proof -
  obtain ctx idle temp where st: "st = (ctx, idle, temp)" by (cases st) auto
  from assms have inv: "ctx_inv D n m F ctx" and idle: "\<And>i. i \<in> set idle \<Longrightarrow> i < n"
    and temp: "\<And>i. i \<in> fst ` set temp \<Longrightarrow> i < n"
    by (auto simp: assign_inv_def st list_all_iff)
  from assignment_options_ok [of ctx task idle] obtain options where
    o: "assignment_options ctx task idle = Inr options"
       "\<And>x. x \<in> set options \<Longrightarrow> fst x \<in> set idle \<and> path_chain (position (agvs ctx ! fst x)) (snd x)"
    by blast
  show ?thesis
  proof (cases "sort_key option_key options")
    case Nil
    then show ?thesis using o(1) assms by (simp add: assign_task_def st)
  next
    case (Cons x others)
    obtain sel ptps where x: "x = (sel, ptps)" by (cases x) auto
    from set_sort_key_hd [OF Cons] o(2) [of x]
    have sel: "sel \<in> set idle" and pc: "path_chain (position (agvs ctx ! sel)) ptps"
      by (simp_all add: x)
    have seln: "sel < n" using idle sel by simp
    have "agv_ok m (agvs ctx ! sel)" by (rule ctx_inv_agv [OF inv seln])
    then have "agv_ok m ((agvs ctx ! sel)\<lparr>path_time_points := ptps\<rparr>)"
      using pc by (simp add: agv_ok_def)
    then have "ctx_inv D n m F (set_agv ctx sel ((agvs ctx ! sel)\<lparr>path_time_points := ptps\<rparr>))"
      by (intro ctx_inv_set_agv_same [OF inv seln]) simp_all
    moreover have "\<And>i. i \<in> set (remove1 sel idle) \<Longrightarrow> i < n"
      using idle by (meson notin_set_remove1)
    moreover have "\<And>i. i \<in> fst ` set (dict_set temp sel task) \<Longrightarrow> i < n"
      using temp seln by (auto simp: dict_set_keys)
    ultimately have "assign_inv D n m F
        (set_agv ctx sel ((agvs ctx ! sel)\<lparr>path_time_points := ptps\<rparr>), remove1 sel idle,
         dict_set temp sel task)"
      by (auto simp: assign_inv_def list_all_iff)
    then show ?thesis using o(1) Cons by (simp add: assign_task_def st x)
  qed
qed

lemma assign_tasks_inv:
  "assign_inv D n m F st \<Longrightarrow> \<exists>st'. assign_tasks pending st = Inr st' \<and> assign_inv D n m F st'"
proof (induction pending arbitrary: st)
  case Nil
  then show ?case by simp
next
  case (Cons task pending)
  show ?case
  proof (cases "fst (snd st) = []")
    case True
    then show ?thesis using Cons.prems by simp
  next
    case False
    from assign_task_inv [OF Cons.prems, of task] obtain st1 where
      "assign_task task st = Inr st1" "assign_inv D n m F st1" by blast
    with Cons.IH [of st1] False show ?thesis by simp
  qed
qed

lemma select_agvs_ok:
  assumes "ctx_inv D n m F ctx" and "\<And>a. agv_ok m a \<Longrightarrow> \<exists>b. cond a = Inr b"
  shows "(\<And>i. i \<in> set ks \<Longrightarrow> i < n) \<Longrightarrow>
         \<exists>selected. select_agvs cond ctx ks = Inr selected \<and> set selected \<subseteq> set ks"
proof (induction ks)
  case Nil
  then show ?case by simp
next
  case (Cons k ks)
  have "agv_ok m (agvs ctx ! k)" using ctx_inv_agv [OF assms(1)] Cons.prems by simp
  from assms(2) [OF this] obtain b where "cond (agvs ctx ! k) = Inr b" by blast
  with Cons show ?case by auto
qed

lemma turn_all_inv:
  "ctx_inv D n m F ctx \<Longrightarrow> (\<And>i. i \<in> set ks \<Longrightarrow> i < n) \<Longrightarrow>
   \<exists>ctx'. turn_all ks ctx = Inr ctx' \<and> ctx_inv D n m F ctx'"
proof (induction ks arbitrary: ctx)
  case Nil
  then show ?case by simp
next
  case (Cons k ks)
  have k: "k < n" using Cons.prems(2) by simp
  from turn_None_ok [OF ctx_inv_agv [OF Cons.prems(1) k]] obtain a' where
    a': "turn (agvs ctx ! k) None = Inr a'" "position a' = position (agvs ctx ! k)" "agv_ok m a'"
    by blast
  have "ctx_inv D n m F (set_agv ctx k a')"
    by (rule ctx_inv_set_agv_same [OF Cons.prems(1) k a'(2,3)])
  from Cons.IH [OF this] Cons.prems(2) a'(1) show ?case by simp
qed

lemma park_agv_inv:
  assumes "ctx_inv D n m F ctx" and "i < n"
  shows "\<exists>ctx'. park_agv i ctx = Inr ctx' \<and> ctx_inv D n m F ctx'"
proof (cases "edge_points ctx i")
  case Nil
  then show ?thesis using assms(1) by (simp add: park_agv_def Let_def)
next
  case (Cons p ps)
  let ?idle = "agvs ctx ! i"
  let ?goal = "min_by_key (\<lambda>point. \<bar>px point - px (position ?idle)\<bar> + \<bar>py point - py (position ?idle)\<bar>) p ps"
  let ?O = "set (build_obstacles ctx (get_obstacles ctx i))"
  obtain path where
    path: "a_star_with_orientation (position ?idle) ?goal (pitch ?idle) ?O None = Inr path"
    using a_star_total by blast
  have "set (get_obstacles ctx i) \<subseteq> ?O" by (simp add: build_obstacles_def)
  from planned_step_free [OF path this, of "pitch ?idle"] obtain ptps where
    ptps: "calculate_path_timing path (pitch ?idle) = Inr ptps"
      "path_chain (position ?idle) ptps"
      "1 < length ptps \<longrightarrow> ptp_position (ptps ! 1) \<notin> set (map position (agvs ctx))"
    by blast
  let ?a = "?idle\<lparr>path_time_points := ptps\<rparr>"
  let ?ctx1 = "set_agv ctx i ?a"
  have ok: "agv_ok m ?a"
    using ctx_inv_agv [OF assms] ptps(2) by (simp add: agv_ok_def)
  have inv1: "ctx_inv D n m F ?ctx1"
    by (rule ctx_inv_set_agv_same [OF assms]) (simp_all add: ok)
  have pos1: "map position (agvs ?ctx1) = map position (agvs ctx)"
    using assms by (simp add: set_agv_def map_update ctx_inv_def list_update_same_conv)
  obtain will_move where wm: "should_move ?a = Inr will_move"
    using should_move_ok [of ?a] ptps(2) by auto
  obtain will_turn where wt: "should_turn ?a = Inr will_turn"
    using should_turn_ok [of ?a] ptps(2) by auto
  from turn_None_ok [OF ok] obtain turned where
    tn: "turn ?a None = Inr turned" "position turned = position ?a" "agv_ok m turned" by blast
  have res: "park_agv i ctx =
      (if will_move then Inr (set_agv ?ctx1 i (move ?a))
       else if will_turn then Inr (set_agv ?ctx1 i turned) else Inr ?ctx1)"
    using Cons path ptps(1) wm wt tn(1) by (simp add: park_agv_def Let_def)
  show ?thesis
  proof (cases will_move)
    case True
    then have len: "1 < length ptps" using wm by (auto simp: should_move_def split: if_splits)
    have "position (move ?a) \<notin> set (map position (agvs ?ctx1))" "agv_ok m (move ?a)"
      using move_ok [OF ok] len ptps(3) pos1 by simp_all
    then have "ctx_inv D n m F (set_agv ?ctx1 i (move ?a))"
      using ctx_inv_set_agv_moved [OF inv1 assms(2)] by blast
    then show ?thesis using res True by simp
  next
    case False
    have "ctx_inv D n m F (set_agv ?ctx1 i turned)"
      using tn(2,3) assms
      by (intro ctx_inv_set_agv_same [OF inv1]) (simp_all add: set_agv_def ctx_inv_def)
    then show ?thesis using res False inv1 by simp
  qed
qed

lemma park_idle_inv:
  "ctx_inv D n m F ctx \<Longrightarrow> (\<And>i. i \<in> set ks \<Longrightarrow> i < n) \<Longrightarrow>
   \<exists>ctx'. park_idle ks ctx = Inr ctx' \<and> ctx_inv D n m F ctx'"
proof (induction ks arbitrary: ctx)
  case Nil
  then show ?case by simp
next
  case (Cons k ks)
  have "k < n" using Cons.prems(2) by simp
  from park_agv_inv [OF Cons.prems(1) this] obtain ctx1 where
    "park_agv k ctx = Inr ctx1" "ctx_inv D n m F ctx1" by blast
  with Cons.IH [of ctx1] Cons.prems(2) show ?case by simp
qed

subsection \<open>A tick keeps the invariant and raises nothing but the deadlock exception\<close>

lemma upt_range: "i \<in> set [0..<n] \<Longrightarrow> i < n"
  by simp

lemma process_loaded_inv:
  assumes "ctx_inv D n m F ctx"
  shows "\<exists>ctx' handled'. process_loaded t ctx = Inr (ctx', handled') \<and> ctx_inv D n m F ctx'"
proof -
  have n: "length (agvs ctx) = n" using assms by (simp add: ctx_inv_def)
  obtain ctx1 handled1 where u: "unload_phase t [0..<n] ctx [] = (ctx1, handled1)"
    by (cases "unload_phase t [0..<n] ctx []") auto
  have inv1: "ctx_inv D n m F ctx1"
    using unload_phase_inv [OF assms upt_range, of "[0..<n]" t "[]"] u by simp
  then have m1: "length (tasks ctx1) = m" by (simp add: ctx_inv_def)
  from sorted_pending_tasks_range [of "tasks ctx1"] obtain pending where
    p: "get_sorted_pending_tasks (tasks ctx1) = Inr pending" "\<And>j. j \<in> set pending \<Longrightarrow> j < m"
    using m1 by auto
  obtain ctx2 handled2 where l: "load_phase t pending [0..<n] ctx1 handled1 = (ctx2, handled2)"
    by (cases "load_phase t pending [0..<n] ctx1 handled1") auto
  have inv2: "ctx_inv D n m F ctx2"
    using load_phase_inv [OF inv1 upt_range p(2), of "[0..<n]" pending t handled1] l by simp
  let ?loaded = "filter (\<lambda>i. is_loaded (agvs ctx2 ! i)) [0..<n]"
  have "\<And>i. i \<in> set ?loaded \<Longrightarrow> i < n" by simp
  from batch_move_agvs_inv [OF inv2 this, of ?loaded True None handled2]
  obtain ctx3 handled3 where
    b: "batch_move_agvs ?loaded handled2 True None ctx2 = Inr (ctx3, handled3)"
    and inv3: "ctx_inv D n m F ctx3" by auto
  from turn_loaded_inv [OF inv3 upt_range, of "[0..<n]" handled3]
  obtain ctx4 handled4 where
    "turn_loaded [0..<n] ctx3 handled3 = Inr (ctx4, handled4)" "ctx_inv D n m F ctx4" by auto
  then show ?thesis
    using n u p(1) l b by (simp add: process_loaded_def Let_def)
qed

lemma process_idle_inv:
  assumes "ctx_inv D n m F ctx"
  shows "\<exists>ctx' handled'. process_idle pending ctx handled = Inr (ctx', handled') \<and> ctx_inv D n m F ctx'"
proof -
  have n: "length (agvs ctx) = n" using assms by (simp add: ctx_inv_def)
  let ?idle = "filter (\<lambda>i. i \<notin> set handled \<and> \<not> is_loaded (agvs ctx ! i)) [0..<n]"
  have "assign_inv D n m F (ctx, ?idle, [])"
    using assms by (simp add: assign_inv_def list_all_iff)
  from assign_tasks_inv [OF this, of pending] obtain ctx1 idle1 temp where
    a: "assign_tasks pending (ctx, ?idle, []) = Inr (ctx1, idle1, temp)"
    and inv1: "ctx_inv D n m F ctx1" and keys': "list_all (\<lambda>i. i < n) (map fst temp)"
    by (auto simp: assign_inv_def)
  have keys: "\<And>i. i \<in> set (map fst temp) \<Longrightarrow> i < n"
    using keys' by (auto simp: list_all_iff)
  from select_agvs_ok [OF inv1 _ keys, of should_turn "map fst temp"] obtain turn_agvs where
    t: "select_agvs should_turn ctx1 (map fst temp) = Inr turn_agvs"
       "set turn_agvs \<subseteq> set (map fst temp)"
    using should_turn_ok by (auto simp: agv_ok_def)
  from select_agvs_ok [OF inv1 _ keys, of should_move "map fst temp"] obtain move_agvs where
    mv: "select_agvs should_move ctx1 (map fst temp) = Inr move_agvs"
       "set move_agvs \<subseteq> set (map fst temp)"
    using should_move_ok by (auto simp: agv_ok_def)
  have "\<And>i. i \<in> set turn_agvs \<Longrightarrow> i < n" using t(2) keys by blast
  from turn_all_inv [OF inv1 this] obtain ctx2 where
    ta: "turn_all turn_agvs ctx1 = Inr ctx2" and inv2: "ctx_inv D n m F ctx2" by blast
  have mn: "\<And>i. i \<in> set move_agvs \<Longrightarrow> i < n" using mv(2) keys by blast
  have "\<forall>i \<in> set move_agvs. map_of temp i \<noteq> None"
    using mv(2) by (auto simp: map_of_eq_None_iff)
  then have "False \<or> (\<exists>assignments. Some temp = Some assignments \<and>
                     (\<forall>i \<in> set move_agvs. map_of assignments i \<noteq> None))"
    by simp
  from batch_move_agvs_inv [OF inv2 mn this, of handled]
  obtain ctx3 handled3 where
    "batch_move_agvs move_agvs handled False (Some temp) ctx2 = Inr (ctx3, handled3)"
    "ctx_inv D n m F ctx3" by auto
  then show ?thesis
    using n a t(1) mv(1) ta by (simp add: process_idle_def Let_def)
qed

lemma process_phases_inv:
  assumes "ctx_inv D n m F ctx"
  shows "\<exists>ctx'. process_phases t ctx = Inr ctx' \<and> ctx_inv D n m F ctx'"
proof -
  from process_loaded_inv [OF assms, of t] obtain ctx1 handled1 where
    l: "process_loaded t ctx = Inr (ctx1, handled1)" and inv1: "ctx_inv D n m F ctx1" by blast
  from sorted_pending_tasks_range [of "tasks ctx1"] obtain pending where
    p: "get_sorted_pending_tasks (tasks ctx1) = Inr pending" by auto
  from process_idle_inv [OF inv1, of pending handled1] obtain ctx2 handled2 where
    i: "process_idle pending ctx1 handled1 = Inr (ctx2, handled2)"
    and inv2: "ctx_inv D n m F ctx2" by blast
  have n2: "length (agvs ctx2) = n" using inv2 by (simp add: ctx_inv_def)
  have "\<And>i. i \<in> set (filter (\<lambda>i. i \<notin> set handled2) [0..<n]) \<Longrightarrow> i < n" by simp
  from park_idle_inv [OF inv2 this] obtain ctx3 where
    k: "park_idle (filter (\<lambda>i. i \<notin> set handled2) [0..<n]) ctx2 = Inr ctx3"
    and inv3: "ctx_inv D n m F ctx3" by blast
  show ?thesis
  proof (cases "pending = []")
    case True
    then show ?thesis
      using l p i k n2 ctx_inv_recorder_add [OF inv3, of t] by (simp add: process_phases_def)
  next
    case False
    then show ?thesis
      using l p i ctx_inv_recorder_add [OF inv2, of t] by (simp add: process_phases_def)
  qed
qed

lemma process_inv:
  assumes "sched_inv D n m F s" and "timestamp s \<le> MAX_TIMESTAMP"
  shows "\<exists>s'. process s = Inr s' \<and> sched_inv D n m F s' \<and> timestamp s' = timestamp s + 1"
proof -
  from process_phases_inv [of D n m F "sched_context s" "timestamp s + 1"] assms(1)
  obtain ctx' where "process_phases (timestamp s + 1) (sched_context s) = Inr ctx'"
    "ctx_inv D n m F ctx'" by (auto simp: sched_inv_def)
  then show ?thesis
    using assms(2) by (simp add: process_def Let_def sched_inv_def)
qed

lemma process_deadlock:
  "timestamp s > MAX_TIMESTAMP \<Longrightarrow> process s = Inl (DeadlockExceeded, s)"
  by (simp add: process_def)

lemma run_ticks_inv:
  "sched_inv D n m F s \<Longrightarrow>
   \<exists>s'. (run_ticks k s = Inr s' \<or> run_ticks k s = Inl (DeadlockExceeded, s')) \<and> sched_inv D n m F s'"
proof (induction k arbitrary: s)
  case 0
  then show ?case by simp
next
  case (Suc k)
  show ?case
  proof (cases "timestamp s \<le> MAX_TIMESTAMP")
    case True
    from process_inv [OF Suc.prems True] obtain s1 where
      "process s = Inr s1" "sched_inv D n m F s1" by blast
    with Suc.IH [of s1] show ?thesis by simp
  next
    case False
    then show ?thesis using Suc.prems by (auto simp: process_deadlock)
  qed
qed

lemma process_to_complete_inv:
  "sched_inv D n m F s \<Longrightarrow> timestamp s \<le> MAX_TIMESTAMP + 1 \<Longrightarrow>
   (\<exists>s'. process_to_complete s = Inr s' \<and> all_tasks_completed (sched_context s') \<and>
          sched_inv D n m F s') \<or>
   (\<exists>s'. process_to_complete s = Inl (DeadlockExceeded, s') \<and> timestamp s' = MAX_TIMESTAMP + 1 \<and>
          \<not> all_tasks_completed (sched_context s') \<and> sched_inv D n m F s')"
proof (induction s rule: process_to_complete.induct)
  case (1 s)
  show ?case
  proof (cases "all_tasks_completed (sched_context s)")
    case True
    then show ?thesis using "1.prems"(1) by (subst process_to_complete.simps) simp
  next
    case nc: False
    show ?thesis
    proof (cases "timestamp s \<le> MAX_TIMESTAMP")
      case True
      from process_inv [OF "1.prems"(1) True] obtain s1 where
        s1: "process s = Inr s1" "sched_inv D n m F s1" "timestamp s1 = timestamp s + 1" by blast
      from "1.IH" [OF nc s1(1) s1(2)] s1(3) True
      show ?thesis
        using nc s1(1) by (subst process_to_complete.simps, subst process_to_complete.simps) simp
    next
      case False
      then have "timestamp s = MAX_TIMESTAMP + 1" using "1.prems"(2) by simp
      then show ?thesis
        using nc "1.prems"(1) by (subst process_to_complete.simps) (simp add: process_deadlock)
    qed
  qed
qed

subsection \<open>The constructor establishes the invariant\<close>

lemma get_position_by_name_member:
  "get_position_by_name elements ty nm = Inr p \<Longrightarrow>
   \<exists>e \<in> set elements. element_type e = ty \<and> p = PointEx (element_x e) (element_y e)"
  by (induction elements) (auto split: if_splits)

lemma build_tasks_end_positions:
  "build_tasks elements records = Inr built \<Longrightarrow>
   list_all (\<lambda>t. end_position t \<in> set (element_obstacles elements)) built"
proof (induction records arbitrary: built)
  case Nil
  then show ?case by simp
next
  case (Cons r records)
  from Cons.prems obtain sp ep rest where
    e: "get_position_by_name elements END_POINT (end_point r) = Inr ep"
    and r: "build_tasks elements records = Inr rest"
    and b: "built = TaskEx_init r sp ep # rest"
    by (auto split: sum.splits)
  from get_position_by_name_member [OF e]
  have "ep \<in> set (element_obstacles elements)"
    by (auto simp: element_obstacles_def)
  with Cons.IH [OF r] show ?case
    by (simp add: b TaskEx_init_def)
qed

lemma Agv_init_ok: "agv_ok m (Agv_init nm p d)"
  by (simp add: Agv_init_def agv_ok_def path_chain_def)

lemma build_agvs_ok:
  "build_agvs elements = Inr built \<Longrightarrow> list_all (agv_ok m) built"
proof (induction elements arbitrary: built)
  case Nil
  then show ?case by simp
next
  case (Cons e elements)
  then show ?case
    by (auto simp: Agv_init_ok split: if_splits option.splits sum.splits)
qed

lemma AgvContext_init_inv:
  assumes "AgvContext_init elements records = Inr ctx"
  shows "ctx_inv (distinct (map position (agvs ctx))) (length (agvs ctx)) (length (tasks ctx))
           (fixed_map_obstacles ctx) ctx"
proof -
  from assms obtain built_tasks built_agvs where
    t: "build_tasks elements records = Inr built_tasks"
    and a: "build_agvs elements = Inr built_agvs"
    and c: "tasks ctx = built_tasks" "agvs ctx = built_agvs"
           "fixed_map_obstacles ctx = element_obstacles elements @ border_obstacles (get_bounds elements)"
    by (auto simp: AgvContext_init_def recorder_add_def split: sum.splits if_splits)
  from build_tasks_end_positions [OF t]
  have "list_all (\<lambda>t. end_position t \<in> set (fixed_map_obstacles ctx)) (tasks ctx)"
    by (auto simp: c list_all_iff)
  moreover have "list_all (agv_ok (length (tasks ctx))) (agvs ctx)"
    using build_agvs_ok [OF a] by (simp add: c)
  ultimately show ?thesis by (simp add: ctx_inv_def)
qed

subsection \<open>No phase raises the deadlock exception\<close>

lemma benign_Inr [simp]: "benign (Inr v)"
  by (simp add: benign_def)

lemma no_deadlock_Inr [simp]: "no_deadlock (Inr v)"
  by (simp add: no_deadlock_def)

lemma no_deadlock_Inl [simp]: "no_deadlock (Inl (e, c)) \<longleftrightarrow> e \<noteq> DeadlockExceeded"
  by (simp add: no_deadlock_def)

lemma benign_Inl [simp]: "benign (Inl e) \<longleftrightarrow> e \<noteq> DeadlockExceeded"
  by (simp add: benign_def)

lemma no_deadlock_lift:
  "benign r \<Longrightarrow> (\<And>v. r = Inr v \<Longrightarrow> no_deadlock (g v)) \<Longrightarrow>
   no_deadlock (case r of Inl e \<Rightarrow> Inl (e, c) | Inr v \<Rightarrow> g v)"
  by (cases r) auto

lemma no_deadlock_bind:
  "no_deadlock r \<Longrightarrow> (\<And>v. r = Inr v \<Longrightarrow> no_deadlock (g v)) \<Longrightarrow>
   no_deadlock (case r of Inl e \<Rightarrow> Inl e | Inr v \<Rightarrow> g v)"
  by (cases r) (auto simp: no_deadlock_def)

lemma benign_bind:
  "benign r \<Longrightarrow> (\<And>v. r = Inr v \<Longrightarrow> benign (g v)) \<Longrightarrow>
   benign (case r of Inl e \<Rightarrow> Inl e | Inr v \<Rightarrow> g v)"
  by (cases r) auto

lemma get_pitch_benign: "benign (get_pitch_to_neighbour p q)"
  by (simp add: get_pitch_to_neighbour_def Let_def)

lemma timing_loop_benign: "benign (timing_loop p qs t d)"
proof (induction qs arbitrary: p t d)
  case Nil
  then show ?case by simp
next
  case (Cons q qs)
  show ?case
    unfolding timing_loop.simps Let_def
    by (intro benign_bind get_pitch_benign) (auto intro: Cons.IH)
qed

lemma calculate_path_timing_benign: "benign (calculate_path_timing path d)"
  unfolding calculate_path_timing_def
  by (cases path) (auto intro!: benign_bind timing_loop_benign)

lemma a_star_benign: "benign (a_star_with_orientation start goal ori obstacles grid_size)"
  using a_star_total [of start goal ori obstacles grid_size] by auto

lemma path_to_pickup_benign: "benign (calculate_path_to_pickup_position ctx i j additional)"
  by (simp add: calculate_path_to_pickup_position_def Let_def a_star_benign)

lemma path_to_end_benign: "benign (calculate_path_to_end_point ctx i j additional)"
  by (simp add: calculate_path_to_end_point_def Let_def a_star_benign)

lemma should_turn_benign: "benign (should_turn a)"
  unfolding should_turn_def
  by (auto intro!: benign_bind get_pitch_benign)

lemma should_move_benign: "benign (should_move a)"
  unfolding should_move_def
  by (auto intro!: benign_bind get_pitch_benign)

lemma turn_benign: "benign (turn a specified)"
  unfolding turn_def
  by (cases specified) (auto intro!: benign_bind get_pitch_benign)

lemma current_task_benign: "benign (current_task loaded temp_assignments ctx i)"
  by (auto simp: current_task_def split: option.splits)

lemma sorted_pending_benign: "benign (get_sorted_pending_tasks ts)"
  by (simp add: get_sorted_pending_tasks_eq)

lemma batch_move_agv_no_deadlock: "no_deadlock (batch_move_agv loaded temp_assignments i st)"
proof -
  obtain ctx handled moved assigned where st: "st = (ctx, handled, moved, assigned)"
    by (cases st) auto
  have paths: "benign (if loaded then calculate_path_to_end_point ctx i j (get_obstacles ctx i)
                      else calculate_path_to_pickup_position ctx i j (get_obstacles ctx i))" for j
    by (simp add: path_to_end_benign path_to_pickup_benign)
  show ?thesis
    unfolding batch_move_agv_def st prod.case Let_def
    by (auto intro!: no_deadlock_lift current_task_benign paths calculate_path_timing_benign
                     get_pitch_benign turn_benign path_to_end_benign path_to_pickup_benign
             split: option.splits)
qed

lemma batch_pass_no_deadlock: "no_deadlock (batch_pass loaded temp_assignments cs st)"
proof (induction cs arbitrary: st)
  case Nil
  then show ?case by simp
next
  case (Cons c cs)
  show ?case
    unfolding batch_pass.simps
    by (intro no_deadlock_bind batch_move_agv_no_deadlock Cons.IH)
qed

lemma batch_loop_no_deadlock: "no_deadlock (batch_loop loaded temp_assignments cs ctx handled moved)"
proof (induction loaded temp_assignments cs ctx handled moved rule: batch_loop.induct)
  case (1 loaded temp_assignments cs ctx handled moved)
  show ?case
    by (subst batch_loop.simps)
       (auto intro!: no_deadlock_bind batch_pass_no_deadlock "1.IH")
qed

lemma turn_loaded_no_deadlock: "no_deadlock (turn_loaded ids ctx handled)"
proof (induction ids arbitrary: ctx handled)
  case Nil
  then show ?case by simp
next
  case (Cons i ids)
  show ?case
    unfolding turn_loaded.simps
    by (auto intro!: no_deadlock_lift should_turn_benign turn_benign Cons.IH)
qed

lemma assignment_options_benign: "benign (assignment_options ctx task ids)"
proof (induction ids)
  case Nil
  then show ?case by simp
next
  case (Cons i ids)
  show ?case
    unfolding assignment_options.simps Let_def
    by (intro benign_bind path_to_pickup_benign calculate_path_timing_benign Cons.IH) simp
qed

lemma assign_task_no_deadlock: "no_deadlock (assign_task task st)"
proof -
  obtain ctx idle temp where st: "st = (ctx, idle, temp)" by (cases st) auto
  show ?thesis
    unfolding assign_task_def st prod.case
    by (auto intro!: no_deadlock_lift assignment_options_benign split: list.splits)
qed

lemma assign_tasks_no_deadlock: "no_deadlock (assign_tasks pending st)"
proof (induction pending arbitrary: st)
  case Nil
  then show ?case by simp
next
  case (Cons task pending)
  show ?case
    unfolding assign_tasks.simps
    by (auto intro!: no_deadlock_bind assign_task_no_deadlock Cons.IH)
qed

lemma select_agvs_benign:
  "(\<And>a. benign (cond a)) \<Longrightarrow> benign (select_agvs cond ctx ks)"
proof (induction ks)
  case Nil
  then show ?case by simp
next
  case (Cons k ks)
  show ?case
    unfolding select_agvs.simps
    by (intro benign_bind Cons.prems Cons.IH) simp_all
qed

lemma turn_all_no_deadlock: "no_deadlock (turn_all ks ctx)"
proof (induction ks arbitrary: ctx)
  case Nil
  then show ?case by simp
next
  case (Cons k ks)
  show ?case
    unfolding turn_all.simps
    by (intro no_deadlock_lift turn_benign Cons.IH)
qed

lemma park_agv_no_deadlock: "no_deadlock (park_agv i ctx)"
  unfolding park_agv_def Let_def
  by (auto intro!: no_deadlock_lift a_star_benign calculate_path_timing_benign should_move_benign
                   should_turn_benign turn_benign split: list.splits)

lemma park_idle_no_deadlock: "no_deadlock (park_idle ks ctx)"
proof (induction ks arbitrary: ctx)
  case Nil
  then show ?case by simp
next
  case (Cons k ks)
  show ?case
    unfolding park_idle.simps
    by (intro no_deadlock_bind park_agv_no_deadlock Cons.IH)
qed

lemma process_loaded_no_deadlock: "no_deadlock (process_loaded t ctx)"
  unfolding process_loaded_def Let_def batch_move_agvs_def
  by (auto intro!: no_deadlock_lift no_deadlock_bind sorted_pending_benign batch_loop_no_deadlock
                   turn_loaded_no_deadlock split: prod.splits)

lemma process_idle_no_deadlock: "no_deadlock (process_idle pending ctx handled)"
  unfolding process_idle_def Let_def batch_move_agvs_def
  by (auto intro!: no_deadlock_lift no_deadlock_bind assign_tasks_no_deadlock select_agvs_benign
                   should_turn_benign should_move_benign turn_all_no_deadlock batch_loop_no_deadlock)

lemma process_phases_no_deadlock: "no_deadlock (process_phases t ctx)"
  unfolding process_phases_def
  by (auto intro!: no_deadlock_lift no_deadlock_bind process_loaded_no_deadlock sorted_pending_benign
                   process_idle_no_deadlock park_idle_no_deadlock)

lemma process_deadlock_only_guard:
  "process s = Inl (DeadlockExceeded, s') \<Longrightarrow> timestamp s > MAX_TIMESTAMP"
  using process_phases_no_deadlock [of "timestamp s + 1" "sched_context s"]
  by (auto simp: process_def Let_def no_deadlock_def split: if_splits sum.splits)

subsection \<open>The example map\<close>

lemma example_context:
  "\<exists>ctx. AgvContext_init example_elements example_records = Inr ctx \<and>
         map position (agvs ctx) = [PointEx 2 2, PointEx 3 2]"
  by (simp add: AgvContext_init_def example_elements_def example_records_def Agv_init_def
                recorder_add_def)

text \<open>
  Claim C4. Let the candidate \<open>i\<close> of a batched move be unhandled, with a replanned path of
  at least two points whose first step is in the direction of its pitch. If some moved item
  asks for a cross turn to \<open>d\<close> (the four cases of \<open>cross_turn_case\<close>), the candidate turns in
  place: its pitch becomes \<open>d\<close>, its position stays, its path is cleared, it is appended to
  the handled AGVs, nothing is appended to the moved items and the pass has made progress.
\<close>

theorem cross_turn_in_place:
  assumes "i < length (agvs ctx)" and "i \<notin> set handled" and "is_loaded (agvs ctx ! i) = loaded"
    and "current_task loaded temp_assignments ctx i = Inr j"
    and "(if loaded then calculate_path_to_end_point ctx i j (get_obstacles ctx i)
          else calculate_path_to_pickup_position ctx i j (get_obstacles ctx i)) = Inr path"
    and "calculate_path_timing path (pitch (agvs ctx ! i)) = Inr ptps"
    and "2 \<le> length ptps"
    and "get_pitch_to_neighbour (position (agvs ctx ! i)) (ptp_position (ptps ! 1))
           = Inr (pitch (agvs ctx ! i))"
    and "(m, moved_pos, mt) \<in> set moved_items"
    and "cross_turn_case (agvs ctx ! i) (tasks ctx ! j) (agvs ctx ! m) moved_pos (tasks ctx ! mt) d"
  shows "\<exists>ctx'. batch_move_agv loaded temp_assignments i (ctx, handled, moved_items, assigned)
                  = Inr (ctx', handled @ [i], moved_items, True) \<and>
               pitch (agvs ctx' ! i) = d \<and>
               position (agvs ctx' ! i) = position (agvs ctx ! i) \<and>
               path_time_points (agvs ctx' ! i) = []"
proof -
  let ?a = "(agvs ctx ! i)\<lparr>path_time_points := ptps\<rparr>"
  let ?ctx1 = "set_agv ctx i ?a"
  have c: "cross_turn_case ?a (tasks ctx ! j) (agvs ctx ! m) moved_pos (tasks ctx ! mt) d"
    using assms(10) by (cases d) (simp_all add: cross_turn_case_def)
  have "cross_turn ?ctx1 ?a (tasks ?ctx1 ! j) moved_items = cross_turn ctx ?a (tasks ctx ! j) moved_items"
    using cross_turn_set_agv [of ?a ctx i ?a "tasks ctx ! j" moved_items]
    by (simp add: set_agv_def)
  also have "\<dots> = Some d"
    by (rule cross_turn_mandated [OF assms(9) c])
  finally have ct: "cross_turn ?ctx1 ?a (tasks ?ctx1 ! j) moved_items = Some d" .
  have len: "\<not> length ptps < 2" using assms(7) by simp
  have gp: "get_pitch_to_neighbour (position ?a) (ptp_position (ptps ! 1)) = Inr (pitch ?a)"
    using assms(8) by simp
  show ?thesis
    using assms(1-6) len gp ct
    by (auto simp: batch_move_agv_def Let_def turn_def set_agv_def split: if_splits)
qed

theorem cross_turn_in_place_witness:
  "\<exists>ctx'. batch_move_agv True None 1 (crossing_context, [0], [(0, PointEx 2 3, 0)], True)
            = Inr (ctx', [0] @ [1], [(0, PointEx 2 3, 0)], True) \<and>
          pitch (agvs ctx' ! 1) = UP \<and>
          position (agvs ctx' ! 1) = position (agvs crossing_context ! 1) \<and>
          path_time_points (agvs ctx' ! 1) = []"
proof -
  have ob: "get_obstacles crossing_context 1 = []"
    by (simp add: crossing_context_def scheduler_eval)
  have "calculate_path_to_end_point crossing_context 1 1 (get_obstacles crossing_context 1)
          = Inr [PointEx 2 2, PointEx 3 2, PointEx 4 2, PointEx 4 3]"
    unfolding ob by (simp add: crossing_context_def scheduler_eval a_star_eval)
  then have h5: "(if True then calculate_path_to_end_point crossing_context 1 1 (get_obstacles crossing_context 1)
          else calculate_path_to_pickup_position crossing_context 1 1 (get_obstacles crossing_context 1))
          = Inr [PointEx 2 2, PointEx 3 2, PointEx 4 2, PointEx 4 3]"
    by simp
  have h6: "calculate_path_timing [PointEx 2 2, PointEx 3 2, PointEx 4 2, PointEx 4 3]
              (pitch (agvs crossing_context ! 1))
          = Inr [PathTimePoint (PointEx 2 2) 0, PathTimePoint (PointEx 3 2) 1,
                 PathTimePoint (PointEx 4 2) 2, PathTimePoint (PointEx 4 3) 4]"
    by (simp add: crossing_context_def calculate_path_timing_def get_pitch_to_neighbour_def
                  MOVE_COST_def TURN_COST_def)
  have h1: "1 < length (agvs crossing_context)" and h2: "1 \<notin> set [0::nat]"
    and h3: "is_loaded (agvs crossing_context ! 1) = True"
    and h4: "current_task True None crossing_context 1 = Inr 1"
    and h7: "2 \<le> length [PathTimePoint (PointEx 2 2) 0, PathTimePoint (PointEx 3 2) 1,
                 PathTimePoint (PointEx 4 2) 2, PathTimePoint (PointEx 4 3) 4]"
    and h8: "get_pitch_to_neighbour (position (agvs crossing_context ! 1))
               (ptp_position ([PathTimePoint (PointEx 2 2) 0, PathTimePoint (PointEx 3 2) 1,
                 PathTimePoint (PointEx 4 2) 2, PathTimePoint (PointEx 4 3) 4] ! 1))
             = Inr (pitch (agvs crossing_context ! 1))"
    and h9: "(0, PointEx 2 3, 0) \<in> set [(0::nat, PointEx 2 3, 0::nat)]"
    and h10: "cross_turn_case (agvs crossing_context ! 1) (tasks crossing_context ! 1)
                (agvs crossing_context ! 0) (PointEx 2 3) (tasks crossing_context ! 0) UP"
    by (simp_all add: crossing_context_def current_task_def get_pitch_to_neighbour_def
                      cross_turn_case_def TaskEx_init_def)
  from cross_turn_in_place [OF h1 h2 h3 h4 h5 h6 h7 h8 h9 h10, of True]
  show ?thesis .
qed

text \<open>
  Claim C10. In the assignment phase, when the planned path of every idle AGV to the
  pickup position of a task is empty, the task still selects an AGV: the first idle AGV
  gets the empty list as its path time points, is entered into the temporary assignment
  table for the task and is removed from the idle AGVs (so no later task of the tick can
  select it), while the task table is unchanged (the task's \<open>agv\<close> stays \<open>None\<close>).
\<close>

theorem unreachable_task_still_selects_agv:
  assumes "idle \<noteq> []" and "distinct idle" and "hd idle < length (agvs ctx)"
    and "\<forall>i \<in> set idle. calculate_path_to_pickup_position ctx i task (get_obstacles ctx i) = Inr []"
  shows "\<exists>ctx'. assign_task task (ctx, idle, temp_assignments)
                  = Inr (ctx', tl idle, dict_set temp_assignments (hd idle) task) \<and>
               path_time_points (agvs ctx' ! hd idle) = [] \<and>
               map_of (dict_set temp_assignments (hd idle) task) (hd idle) = Some task \<and>
               hd idle \<notin> set (tl idle) \<and>
               tasks ctx' = tasks ctx"
proof -
  obtain i0 rest where idle: "idle = i0 # rest" using assms(1) by (cases idle) auto
  have opts: "assignment_options ctx task idle = Inr (map (\<lambda>i. (i, [])) idle)"
    using assms(4) by (intro assignment_options_empty) simp
  have "sort_key option_key (map (\<lambda>i. (i, [])) idle) = map (\<lambda>i. (i, [])) idle"
    by (rule sort_key_all_equal [where k = "(True, 0)"]) (auto simp: option_key_def)
  then have "assign_task task (ctx, idle, temp_assignments)
          = (case map (\<lambda>i. (i, [])) idle of
               [] \<Rightarrow> Inr (ctx, idle, temp_assignments)
             | (selected_agv, ptps) # others \<Rightarrow>
                 Inr (set_agv ctx selected_agv ((agvs ctx ! selected_agv)\<lparr>path_time_points := ptps\<rparr>),
                      remove1 selected_agv idle,
                      dict_set temp_assignments selected_agv task))"
    by (simp add: assign_task_def opts)
  then have "assign_task task (ctx, idle, temp_assignments)
          = Inr (set_agv ctx i0 ((agvs ctx ! i0)\<lparr>path_time_points := []\<rparr>), rest,
                 dict_set temp_assignments i0 task)"
    by (simp add: idle)
  moreover have "path_time_points (agvs (set_agv ctx i0 ((agvs ctx ! i0)\<lparr>path_time_points := []\<rparr>)) ! i0) = []"
    using assms(3) by (simp add: set_agv_def idle)
  moreover have "i0 \<notin> set rest" using assms(2) idle by simp
  ultimately show ?thesis
    by (simp add: idle map_of_dict_set set_agv_def)
qed

theorem unreachable_task_still_selects_agv_witness:
  "\<exists>ctx'. assign_task 0 (boxed_context, [0, 1], [])
            = Inr (ctx', tl [0, 1], dict_set [] (hd [0, 1]) 0) \<and>
          path_time_points (agvs ctx' ! hd [0, 1]) = [] \<and>
          map_of (dict_set [] (hd [0, 1]) (0::nat)) (hd [0, 1::nat]) = Some 0 \<and>
          hd [0, 1::nat] \<notin> set (tl [0, 1]) \<and>
          tasks ctx' = tasks boxed_context"
proof -
  have ob0: "get_obstacles boxed_context 0 = [PointEx 0 1]"
    and ob1: "get_obstacles boxed_context 1 = [PointEx 1 1]"
    by (simp_all add: boxed_context_def scheduler_eval)
  have p0: "calculate_path_to_pickup_position boxed_context 0 0 (get_obstacles boxed_context 0) = Inr []"
    unfolding ob0 by (simp add: boxed_context_def scheduler_eval a_star_eval)
  have p1: "calculate_path_to_pickup_position boxed_context 1 0 (get_obstacles boxed_context 1) = Inr []"
    unfolding ob1 by (simp add: boxed_context_def scheduler_eval a_star_eval)
  have h4: "\<forall>i \<in> set [0, 1]. calculate_path_to_pickup_position boxed_context i 0
                (get_obstacles boxed_context i) = Inr []"
    using p0 p1 by simp
  have h1: "[0, 1::nat] \<noteq> []" and h2: "distinct [0, 1::nat]"
    and h3: "hd [0, 1] < length (agvs boxed_context)"
    by (simp_all add: boxed_context_def)
  from unreachable_task_still_selects_agv [OF h1 h2 h3 h4, of "[]"]
  show ?thesis .
qed

text \<open>
  Claim C1. Take a context built by \<open>AgvContext.__init__\<close> whose AGVs stand on pairwise
  distinct cells, and run any number \<open>k\<close> of ticks from it. The run either returns from all
  \<open>k\<close> calls of \<open>process\<close> or stops at the deadlock exception (no other exception is
  raised); in the scheduler it leaves, any two distinct AGVs have different positions.
\<close>

theorem agvs_never_share_a_cell:
  assumes "AgvContext_init elements records = Inr ctx"
    and "distinct (map position (agvs ctx))"
  shows "\<exists>s'. (run_ticks k (SchedulerService_init ctx) = Inr s' \<or>
               run_ticks k (SchedulerService_init ctx) = Inl (DeadlockExceeded, s')) \<and>
              distinct (map position (agvs (sched_context s'))) \<and>
              (\<forall>a b. a < length (agvs (sched_context s')) \<and> b < length (agvs (sched_context s')) \<and>
                     a \<noteq> b \<longrightarrow>
                     position (agvs (sched_context s') ! a) \<noteq> position (agvs (sched_context s') ! b))"
proof -
  let ?n = "length (agvs ctx)" and ?m = "length (tasks ctx)" and ?F = "fixed_map_obstacles ctx"
  have "ctx_inv True ?n ?m ?F ctx"
    using AgvContext_init_inv [OF assms(1)] assms(2) by simp
  then have "sched_inv True ?n ?m ?F (SchedulerService_init ctx)"
    by (simp add: sched_inv_def SchedulerService_init_def)
  from run_ticks_inv [OF this, of k] obtain s' where
    r: "run_ticks k (SchedulerService_init ctx) = Inr s' \<or>
        run_ticks k (SchedulerService_init ctx) = Inl (DeadlockExceeded, s')"
    and d: "distinct (map position (agvs (sched_context s')))"
    by (auto simp: sched_inv_def ctx_inv_def)
  have "\<forall>a b. a < length (agvs (sched_context s')) \<and> b < length (agvs (sched_context s')) \<and>
                     a \<noteq> b \<longrightarrow>
                     position (agvs (sched_context s') ! a) \<noteq> position (agvs (sched_context s') ! b)"
    using d by (auto simp: distinct_conv_nth)
  with r d show ?thesis by blast
qed

theorem agvs_never_share_a_cell_witness:
  "\<exists>ctx. AgvContext_init example_elements example_records = Inr ctx \<and>
         distinct (map position (agvs ctx)) \<and>
         (\<exists>s'. (run_ticks 3 (SchedulerService_init ctx) = Inr s' \<or>
                run_ticks 3 (SchedulerService_init ctx) = Inl (DeadlockExceeded, s')) \<and>
               distinct (map position (agvs (sched_context s'))))"
proof -
  from example_context obtain ctx where
    c: "AgvContext_init example_elements example_records = Inr ctx"
    and p: "map position (agvs ctx) = [PointEx 2 2, PointEx 3 2]" by auto
  have d: "distinct (map position (agvs ctx))" by (simp add: p)
  from agvs_never_share_a_cell [OF c d, of 3] c d show ?thesis by blast
qed

text \<open>
  Claim C9. \<open>process\<close> raises the deadlock exception exactly when the time stamp is above
  400 on entry, and then the scheduler is unchanged (the time stamp is not advanced, no AGV
  has moved, nothing is recorded). For a context built by \<open>AgvContext.__init__\<close>,
  \<open>process_to_complete\<close> either returns with all tasks completed or raises the deadlock
  exception with the time stamp at 401 and some task not completed; no other exception ends
  the run.
\<close>

theorem deadlock_guard:
  "((\<exists>s'. process s = Inl (DeadlockExceeded, s')) \<longleftrightarrow> timestamp s > 400) \<and>
   (timestamp s > 400 \<longrightarrow> process s = Inl (DeadlockExceeded, s)) \<and>
   (AgvContext_init elements records = Inr ctx \<longrightarrow>
      (\<exists>s'. process_to_complete (SchedulerService_init ctx) = Inr s' \<and>
            all_tasks_completed (sched_context s')) \<or>
      (\<exists>s'. process_to_complete (SchedulerService_init ctx) = Inl (DeadlockExceeded, s') \<and>
            timestamp s' = 401 \<and> \<not> all_tasks_completed (sched_context s')))"
proof -
  have guard: "timestamp s > 400 \<longrightarrow> process s = Inl (DeadlockExceeded, s)"
    using process_deadlock [of s] by (simp add: MAX_TIMESTAMP_def)
  moreover have "(\<exists>s'. process s = Inl (DeadlockExceeded, s')) \<longleftrightarrow> timestamp s > 400"
    using guard process_deadlock_only_guard [of s] by (auto simp: MAX_TIMESTAMP_def)
  moreover have "AgvContext_init elements records = Inr ctx \<longrightarrow>
      (\<exists>s'. process_to_complete (SchedulerService_init ctx) = Inr s' \<and>
            all_tasks_completed (sched_context s')) \<or>
      (\<exists>s'. process_to_complete (SchedulerService_init ctx) = Inl (DeadlockExceeded, s') \<and>
            timestamp s' = 401 \<and> \<not> all_tasks_completed (sched_context s'))"
  proof
    assume init: "AgvContext_init elements records = Inr ctx"
    let ?D = "distinct (map position (agvs ctx))"
    let ?n = "length (agvs ctx)" and ?m = "length (tasks ctx)" and ?F = "fixed_map_obstacles ctx"
    have "sched_inv ?D ?n ?m ?F (SchedulerService_init ctx)"
      using AgvContext_init_inv [OF init] by (simp add: sched_inv_def SchedulerService_init_def)
    moreover have "timestamp (SchedulerService_init ctx) \<le> MAX_TIMESTAMP + 1"
      by (simp add: SchedulerService_init_def MAX_TIMESTAMP_def)
    ultimately show "(\<exists>s'. process_to_complete (SchedulerService_init ctx) = Inr s' \<and>
            all_tasks_completed (sched_context s')) \<or>
      (\<exists>s'. process_to_complete (SchedulerService_init ctx) = Inl (DeadlockExceeded, s') \<and>
            timestamp s' = 401 \<and> \<not> all_tasks_completed (sched_context s'))"
      using process_to_complete_inv [of ?D ?n ?m ?F "SchedulerService_init ctx"]
      by (auto simp: MAX_TIMESTAMP_def)
  qed
  ultimately show ?thesis by blast
qed

theorem deadlock_guard_witness:
  "timestamp \<lparr>sched_context = crossing_context, timestamp = 401\<rparr> > 400 \<and>
   process \<lparr>sched_context = crossing_context, timestamp = 401\<rparr>
     = Inl (DeadlockExceeded, \<lparr>sched_context = crossing_context, timestamp = 401\<rparr>) \<and>
   (\<exists>ctx. AgvContext_init example_elements example_records = Inr ctx \<and>
      ((\<exists>s'. process_to_complete (SchedulerService_init ctx) = Inr s' \<and>
            all_tasks_completed (sched_context s')) \<or>
       (\<exists>s'. process_to_complete (SchedulerService_init ctx) = Inl (DeadlockExceeded, s') \<and>
            timestamp s' = 401 \<and> \<not> all_tasks_completed (sched_context s'))))"
proof -
  from example_context obtain ctx where
    c: "AgvContext_init example_elements example_records = Inr ctx" by auto
  have t: "timestamp \<lparr>sched_context = crossing_context, timestamp = 401\<rparr> > 400" by simp
  from deadlock_guard [of "\<lparr>sched_context = crossing_context, timestamp = 401\<rparr>"
         example_elements example_records ctx] c t
  show ?thesis by blast
qed

end
